theory Spec2Isabelle
  imports Complex_Main "HOL-Library.Word"
begin

section \<open>JavaScript values and the object store\<close>

text \<open>
  A JavaScript string is a sequence of UTF-16 code units. \<open>ascii\<close> writes the
  ASCII literals of the source; the Japanese messages are given by their code units.
\<close>

type_synonym jstring = "16 word list"

definition ascii :: "string \<Rightarrow> jstring" where
  "ascii s = map (\<lambda>c. of_nat (of_char c)) s"

text \<open>
  Values are primitives or references to objects of the store. An object is the list
  of its own properties in insertion order; the store is the list of all objects
  allocated so far, an address being an index into it. Two references are the same
  object exactly when their addresses are equal. Numbers are restricted to integers,
  and arrays and functions are left out: the declared \<open>WizardState\<close> holds none.
  JavaScript lists the keys that are array indices before the others, in ascending
  order; the lists here keep the order of insertion. Where the keys of objects built
  in different ways are compared, they are compared as sets.
\<close>

type_synonym addr = nat

datatype val = VUndefined | VNull | VBool bool | VNum int | VStr jstring | VRef addr

type_synonym obj = "(jstring \<times> val) list"
type_synonym heap = "obj list"

definition obj_at :: "heap \<Rightarrow> addr \<Rightarrow> obj" where
  "obj_at h a = (if a < length h then h ! a else [])"

text \<open>\<open>o[k]\<close> on an object: the own property, or \<open>undefined\<close>.\<close>

definition get_prop :: "heap \<Rightarrow> addr \<Rightarrow> jstring \<Rightarrow> val" where
  "get_prop h a k = (case map_of (obj_at h a) k of None \<Rightarrow> VUndefined | Some v \<Rightarrow> v)"

text \<open>
  \<open>o[k] = v\<close> on a property list: an existing key keeps its place, a new key is
  appended (also a key that is an array index, which JavaScript would list first).
\<close>

fun assign :: "jstring \<Rightarrow> val \<Rightarrow> obj \<Rightarrow> obj" where
  "assign k v [] = [(k, v)]"
| "assign k v ((k', v') # ps) = (if k' = k then (k, v) # ps else (k', v') # assign k v ps)"

definition put_prop :: "heap \<Rightarrow> addr \<Rightarrow> jstring \<Rightarrow> val \<Rightarrow> heap" where
  "put_prop h a k v = h[a := assign k v (obj_at h a)]"

text \<open>Decimal digits of an index, for the keys of a spread string.\<close>

fun dec :: "nat \<Rightarrow> jstring" where
  "dec n = (if n < 10 then [of_nat (48 + n)] else dec (n div 10) @ [of_nat (48 + n mod 10)])"

declare dec.simps [simp del]

text \<open>
  The own enumerable properties copied by \<open>{ ...v }\<close>: those of an object, the
  code units of a string under their indices, nothing for any other primitive.
\<close>

fun spread :: "heap \<Rightarrow> val \<Rightarrow> obj" where
  "spread h (VRef a) = obj_at h a"
| "spread h (VStr s) = map (\<lambda>i. (dec i, VStr [s ! i])) [0..<length s]"
| "spread h _ = []"

text \<open>\<open>{ ...a, ...b }\<close> on property lists: the properties of \<open>b\<close> assigned over those of \<open>a\<close>.\<close>

definition merge :: "obj \<Rightarrow> obj \<Rightarrow> obj" where
  "merge a b = fold (\<lambda>(k, v). assign k v) b a"

fun truthy :: "val \<Rightarrow> bool" where
  "truthy VUndefined = False"
| "truthy VNull = False"
| "truthy (VBool b) = b"
| "truthy (VNum n) = (n \<noteq> 0)"
| "truthy (VStr s) = (s \<noteq> [])"
| "truthy (VRef a) = True"

section \<open>The path-set utility\<close>

text \<open>\<open>path.split(".")\<close>: always at least one segment.\<close>

fun split_dot :: "jstring \<Rightarrow> jstring list" where
  "split_dot [] = [[]]"
| "split_dot (c # cs) =
     (if c = 46 then [] # split_dot cs
      else (case split_dot cs of [] \<Rightarrow> [[c]] | k # ks \<Rightarrow> (c # k) # ks))"

text \<open>
  The loop of \<open>set\<close> and the final assignment, on the remaining keys: for every key
  but the last, \<open>cur[k] = { ...cur[k] }\<close> allocates a copy and stores it in \<open>cur\<close>,
  then \<open>cur\<close> moves into the copy; the last key receives the value. With no key at
  all the source assigns to \<open>keys[-1]\<close>, the key \<open>"undefined"\<close>.

  The key \<open>__proto__\<close> is an accessor of \<open>Object.prototype\<close> in JavaScript, and an
  assignment to it does not create an own property; here it is an ordinary key, so
  the statements about \<open>set_path\<close> exclude it.
\<close>

fun set_loop :: "heap \<Rightarrow> addr \<Rightarrow> jstring list \<Rightarrow> val \<Rightarrow> heap" where
  "set_loop h cur [] v = put_prop h cur (ascii ''undefined'') v"
| "set_loop h cur [k] v = put_prop h cur k v"
| "set_loop h cur (k # ks) v =
     (let fresh = length h;
          h1 = h @ [spread h (get_prop h cur k)];
          h2 = put_prop h1 cur k (VRef fresh)
      in set_loop h2 fresh ks v)"

definition set_path :: "heap \<Rightarrow> val \<Rightarrow> jstring \<Rightarrow> val \<Rightarrow> heap \<times> val" where
  "set_path h ob path v =
     (let keys = split_dot path;
          draft = length h;
          h0 = h @ [spread h ob]
      in (set_loop h0 draft keys v, VRef draft))"

definition proto_key :: jstring where
  "proto_key = ascii ''__proto__''"

text \<open>Reading along a list of keys, as \<open>v[k1][k2]...\<close> does on objects.\<close>

fun lookup :: "heap \<Rightarrow> val \<Rightarrow> jstring list \<Rightarrow> val" where
  "lookup h v [] = v"
| "lookup h (VRef a) (k # ks) = lookup h (get_prop h a k) ks"
| "lookup h _ (k # ks) = VUndefined"

fun own_keys :: "heap \<Rightarrow> val \<Rightarrow> jstring list" where
  "own_keys h (VRef a) = map fst (obj_at h a)"
| "own_keys h _ = []"

text \<open>A value of the store refers to an allocated object; the store is closed under its references.\<close>

fun val_ok :: "heap \<Rightarrow> val \<Rightarrow> bool" where
  "val_ok h (VRef a) = (a < length h)"
| "val_ok h _ = True"

definition heap_ok :: "heap \<Rightarrow> bool" where
  "heap_ok h = list_all (\<lambda>ob. list_all (\<lambda>p. val_ok h (snd p)) ob) h"

text \<open>
  A path is valid in a container when every key but the last names an existing
  property that holds an object; the last key may be missing.
\<close>

fun valid_path :: "heap \<Rightarrow> val \<Rightarrow> jstring list \<Rightarrow> bool" where
  "valid_path h (VRef a) [k] = (a < length h)"
| "valid_path h (VRef a) (k # ks) =
     (a < length h \<and> k \<in> set (map fst (h ! a)) \<and> valid_path h (get_prop h a k) ks)"
| "valid_path h _ _ = False"

text \<open>
  What can be observed of a value without comparing addresses: a primitive itself, or
  the keys of an object. Two values have the same structure when they show the same
  at the end of every list of keys.
\<close>

datatype shape = Prim val | Object "jstring list"

fun shape_at :: "heap \<Rightarrow> val \<Rightarrow> shape" where
  "shape_at h (VRef a) = Object (map fst (obj_at h a))"
| "shape_at h v = Prim v"

definition same_structure :: "heap \<Rightarrow> val \<Rightarrow> heap \<Rightarrow> val \<Rightarrow> bool" where
  "same_structure h1 v1 h2 v2 =
     (\<forall>q. shape_at h1 (lookup h1 v1 q) = shape_at h2 (lookup h2 v2 q))"

section \<open>The wizard state and its reducer\<close>

definition STEPS :: "(jstring \<times> jstring) list" where
  "STEPS =
     [(ascii ''account'', [0x30A2, 0x30AB, 0x30A6, 0x30F3, 0x30C8]),
      (ascii ''company'', [0x4F1A, 0x793E, 0x60C5, 0x5831]),
      (ascii ''members'', [0x5F79, 0x54E1, 0x30FB, 0x682A, 0x4E3B]),
      (ascii ''docs'', [0x5FC5, 0x8981, 0x66F8, 0x985E]),
      (ascii ''review'', [0x78BA, 0x8A8D, 0x30FB, 0x63D0, 0x51FA])]"

text \<open>
  \<open>savedAt\<close> is absent (\<open>None\<close>) or a string; \<open>error\<close> is \<open>null\<close> (\<open>None\<close>) or a
  string; \<open>data\<close> is a value of the store, so that \<open>set\<close> and the spreads act on
  it as they do in the source. \<open>currentIndex\<close> is an integer.
\<close>

record wizard_state =
  currentIndex :: int
  savedAt :: "jstring option"
  dirty :: bool
  saving :: bool
  error :: "jstring option"
  data :: val

text \<open>\<open>Partial<WizardState>\<close>: every field may be absent.\<close>

record partial_state =
  p_currentIndex :: "int option"
  p_savedAt :: "jstring option"
  p_dirty :: "bool option"
  p_saving :: "bool option"
  p_error :: "jstring option option"
  p_data :: "val option"

datatype action =
    GOTO int
  | CHANGE jstring val
  | SET_SAVING bool
  | SET_SAVED_AT "jstring option"
  | SET_DIRTY bool
  | SET_ERROR "jstring option"
  | HYDRATE partial_state

definition initialHeap :: heap where
  "initialHeap =
     [[(ascii ''email'', VStr []), (ascii ''password'', VStr [])],
      [(ascii ''nameJa'', VStr []), (ascii ''nameEn'', VStr []), (ascii ''address'', VStr [])],
      [(ascii ''ceo'', VStr []), (ascii ''directors'', VStr [])],
      [(ascii ''hankoReady'', VBool False), (ascii ''bankCert'', VBool False)],
      [(ascii ''agree'', VBool False)],
      [(ascii ''account'', VRef 0), (ascii ''company'', VRef 1), (ascii ''members'', VRef 2),
       (ascii ''docs'', VRef 3), (ascii ''review'', VRef 4)]]"

definition initialState :: wizard_state where
  "initialState =
     \<lparr>currentIndex = 0, savedAt = None, dirty = False, saving = False, error = None,
      data = VRef 5\<rparr>"

text \<open>
  The reducer. Its first argument is the clock reading that \<open>new Date().toISOString()\<close>
  returns; the store is passed through, since \<open>CHANGE\<close> and \<open>HYDRATE\<close> allocate.
\<close>

fun reducer :: "jstring \<Rightarrow> heap \<Rightarrow> wizard_state \<Rightarrow> action \<Rightarrow> heap \<times> wizard_state" where
  "reducer now h s (GOTO i) = (h, s\<lparr>currentIndex := i, error := None\<rparr>)"
| "reducer now h s (CHANGE path v) =
     (let (h', nextData) = set_path h (data s) path v
      in (h', s\<lparr>data := nextData, dirty := True\<rparr>))"
| "reducer now h s (SET_SAVING b) = (h, s\<lparr>saving := b\<rparr>)"
| "reducer now h s (SET_SAVED_AT t) =
     (h, s\<lparr>savedAt := Some (case t of None \<Rightarrow> now | Some x \<Rightarrow> x), dirty := False\<rparr>)"
| "reducer now h s (SET_DIRTY b) = (h, s\<lparr>dirty := b\<rparr>)"
| "reducer now h s (SET_ERROR e) = (h, s\<lparr>error := e\<rparr>)"
| "reducer now h s (HYDRATE ps) =
     (let snap = (case p_data ps of None \<Rightarrow> [] | Some d \<Rightarrow> if truthy d then spread h d else []);
          merged = merge (spread h (data s)) snap
      in (h @ [merged],
          \<lparr>currentIndex = (case p_currentIndex ps of None \<Rightarrow> currentIndex s | Some i \<Rightarrow> i),
           savedAt = (case p_savedAt ps of None \<Rightarrow> savedAt s | Some t \<Rightarrow> Some t),
           dirty = (case p_dirty ps of None \<Rightarrow> dirty s | Some b \<Rightarrow> b),
           saving = (case p_saving ps of None \<Rightarrow> saving s | Some b \<Rightarrow> b),
           error = (case p_error ps of None \<Rightarrow> error s | Some e \<Rightarrow> e),
           data = VRef (length h)\<rparr>))"

text \<open>A sequence of \<open>dispatch\<close> calls, applied in order.\<close>

fun dispatch :: "jstring \<Rightarrow> action list \<Rightarrow> heap \<times> wizard_state \<Rightarrow> heap \<times> wizard_state" where
  "dispatch now [] hs = hs"
| "dispatch now (a # as) (h, s) = dispatch now as (reducer now h s a)"

section \<open>Validation\<close>

definition msg_email_required :: jstring where
  "msg_email_required =
     [0x30E1, 0x30FC, 0x30EB, 0x30A2, 0x30C9, 0x30EC, 0x30B9, 0x306F, 0x5FC5, 0x9808, 0x3067, 0x3059]"

definition msg_email_format :: jstring where
  "msg_email_format =
     [0x30E1, 0x30FC, 0x30EB, 0x5F62, 0x5F0F, 0x304C, 0x4E0D, 0x6B63, 0x3067, 0x3059]"

definition msg_password :: jstring where
  "msg_password =
     [0x30D1, 0x30B9, 0x30EF, 0x30FC, 0x30C9, 0x306F, 0x0038, 0x6587, 0x5B57, 0x4EE5, 0x4E0A]"

definition msg_nameJa :: jstring where
  "msg_nameJa =
     [0x5546, 0x53F7, 0xFF08, 0x65E5, 0x672C, 0x8A9E, 0xFF09, 0x306F, 0x5FC5, 0x9808, 0x3067, 0x3059]"

definition msg_address :: jstring where
  "msg_address = [0x672C, 0x5E97, 0x6240, 0x5728, 0x5730, 0x306F, 0x5FC5, 0x9808, 0x3067, 0x3059]"

definition msg_ceo :: jstring where
  "msg_ceo = [0x4EE3, 0x8868, 0x8005, 0x6C0F, 0x540D, 0x306F, 0x5FC5, 0x9808, 0x3067, 0x3059]"

definition msg_hanko :: jstring where
  "msg_hanko =
     [0x5370, 0x9451, 0x306E, 0x6E96, 0x5099, 0x3092, 0x5B8C, 0x4E86, 0x3057, 0x3066, 0x304F, 0x3060,
      0x3055, 0x3044]"

definition msg_agree :: jstring where
  "msg_agree = [0x898F, 0x7D04, 0x540C, 0x610F, 0x304C, 0x5FC5, 0x8981, 0x3067, 0x3059]"

text \<open>The class \<open>\s\<close> of an ECMAScript regular expression, on code units.\<close>

definition is_space :: "16 word \<Rightarrow> bool" where
  "is_space c =
     (c \<in> {0x0009, 0x000A, 0x000B, 0x000C, 0x000D, 0x0020, 0x00A0, 0x1680, 0x2028, 0x2029,
            0x202F, 0x205F, 0x3000, 0xFEFF}
      \<or> (0x2000 \<le> c \<and> c \<le> 0x200A))"

text \<open>The class \<open>[^@\s]\<close>.\<close>

definition plain_char :: "16 word \<Rightarrow> bool" where
  "plain_char c = (c \<noteq> 64 \<and> \<not> is_space c)"

text \<open>
  \<open>/^[^@\s]+@[^@\s]+\.[^@\s]+$/\<close>: the string has an \<open>@\<close> at some index \<open>i\<close> and a
  dot at some later index \<open>j\<close>, with at least one code unit before \<open>i\<close>, between \<open>i\<close>
  and \<open>j\<close>, and after \<open>j\<close>, every other code unit being of the class \<open>[^@\s]\<close>.
\<close>

definition email_format :: "jstring \<Rightarrow> bool" where
  "email_format s =
     list_ex (\<lambda>i. list_ex (\<lambda>j.
        0 < i \<and> i + 1 < j \<and> j + 1 < length s \<and> s ! i = 64 \<and> s ! j = 46 \<and>
        list_all (\<lambda>k. k = i \<or> k = j \<or> plain_char (s ! k)) [0..<length s])
      [0..<length s]) [0..<length s]"

text \<open>
  What a handler can run into: \<open>TypeError\<close> is thrown by the source (a property of
  \<open>undefined\<close> or \<open>null\<close> is read); \<open>Unmodelled\<close> marks an object where the declared
  type has a string, whose coercion to a string or a number is not modelled.
\<close>

datatype fault = TypeError | Unmodelled

text \<open>
  \<open>v[k]\<close> on any value, for the keys that validation reads: none of them is a
  property that a string, number or boolean has of its own.
\<close>

fun prop_read :: "heap \<Rightarrow> val \<Rightarrow> jstring \<Rightarrow> fault + val" where
  "prop_read h (VRef a) k = Inr (get_prop h a k)"
| "prop_read h VUndefined k = Inl TypeError"
| "prop_read h VNull k = Inl TypeError"
| "prop_read h _ k = Inr VUndefined"

definition and_then :: "fault + 'a \<Rightarrow> ('a \<Rightarrow> fault + 'b) \<Rightarrow> fault + 'b" where
  "and_then r f = (case r of Inl e \<Rightarrow> Inl e | Inr x \<Rightarrow> f x)"

text \<open>\<open>s.section.field\<close>.\<close>

definition read_field :: "heap \<Rightarrow> val \<Rightarrow> string \<Rightarrow> string \<Rightarrow> fault + val" where
  "read_field h s sec name = and_then (prop_read h s (ascii sec)) (\<lambda>sv. prop_read h sv (ascii name))"

text \<open>
  \<open>regex.test(v)\<close>: a string is matched as it is; \<open>undefined\<close>, \<open>null\<close>, a boolean and
  a number are converted to strings that hold no \<open>@\<close>.
\<close>

fun regex_test :: "val \<Rightarrow> fault + bool" where
  "regex_test (VStr s) = Inr (email_format s)"
| "regex_test (VRef a) = Inl Unmodelled"
| "regex_test _ = Inr False"

text \<open>
  \<open>(v || "").length < 8\<close>: a falsy value gives the empty string; a true boolean and a
  number other than zero have no \<open>length\<close>, and \<open>undefined < 8\<close> is false.
\<close>

fun length_below_8 :: "val \<Rightarrow> fault + bool" where
  "length_below_8 (VStr s) = Inr (length s < 8)"
| "length_below_8 (VRef a) = Inl Unmodelled"
| "length_below_8 v = Inr (\<not> truthy v)"

text \<open>
  \<open>validateCurrent\<close>, for the state \<open>c\<close> of the render that created the handler.
  \<open>STEPS[c.currentIndex]\<close> is \<open>undefined\<close> outside the list, and reading its \<open>key\<close> throws.
\<close>

definition validateCurrent :: "heap \<Rightarrow> wizard_state \<Rightarrow> fault + jstring option" where
  "validateCurrent h c =
     (if currentIndex c < 0 \<or> int (length STEPS) \<le> currentIndex c then Inl TypeError
      else
        let key = fst (STEPS ! nat (currentIndex c)); s = data c in
        if key = ascii ''account'' then
          and_then (read_field h s ''account'' ''email'') (\<lambda>email.
            if \<not> truthy email then Inr (Some msg_email_required)
            else and_then (regex_test email) (\<lambda>ok.
              if \<not> ok then Inr (Some msg_email_format)
              else and_then (read_field h s ''account'' ''password'') (\<lambda>password.
                and_then (length_below_8 password) (\<lambda>short.
                  if short then Inr (Some msg_password) else Inr None))))
        else if key = ascii ''company'' then
          and_then (read_field h s ''company'' ''nameJa'') (\<lambda>nameJa.
            if \<not> truthy nameJa then Inr (Some msg_nameJa)
            else and_then (read_field h s ''company'' ''address'') (\<lambda>address.
              if \<not> truthy address then Inr (Some msg_address) else Inr None))
        else if key = ascii ''members'' then
          and_then (read_field h s ''members'' ''ceo'') (\<lambda>ceo.
            if \<not> truthy ceo then Inr (Some msg_ceo) else Inr None)
        else if key = ascii ''docs'' then
          and_then (read_field h s ''docs'' ''hankoReady'') (\<lambda>hankoReady.
            if \<not> truthy hankoReady then Inr (Some msg_hanko) else Inr None)
        else if key = ascii ''review'' then
          and_then (read_field h s ''review'' ''agree'') (\<lambda>agree.
            if \<not> truthy agree then Inr (Some msg_agree) else Inr None)
        else Inr None)"

section \<open>Persistence\<close>

text \<open>
  The text kept in local storage is represented by the JSON document it denotes.
  \<open>JSON.stringify\<close> reads a value out of the store, leaving out the properties whose
  value is \<open>undefined\<close>, and throws on a cyclic value. The reading is bounded by a depth:
  a value nested deeper than the number of objects of the store is cyclic.
\<close>

datatype json = JNull | JBool bool | JNum int | JStr jstring | JObj "(jstring \<times> json) list"

datatype ser = Cyclic | Omitted | Doc json

fun to_json :: "nat \<Rightarrow> heap \<Rightarrow> val \<Rightarrow> ser"
  and to_json_fields :: "nat \<Rightarrow> heap \<Rightarrow> obj \<Rightarrow> (jstring \<times> json) list option" where
  "to_json n h VUndefined = Omitted"
| "to_json n h VNull = Doc JNull"
| "to_json n h (VBool b) = Doc (JBool b)"
| "to_json n h (VNum i) = Doc (JNum i)"
| "to_json n h (VStr s) = Doc (JStr s)"
| "to_json 0 h (VRef a) = Cyclic"
| "to_json (Suc n) h (VRef a) =
     (case to_json_fields n h (obj_at h a) of None \<Rightarrow> Cyclic | Some kvs \<Rightarrow> Doc (JObj kvs))"
| "to_json_fields n h [] = Some []"
| "to_json_fields n h ((k, v) # ps) =
     (case to_json n h v of
        Cyclic \<Rightarrow> None
      | Omitted \<Rightarrow> to_json_fields n h ps
      | Doc j \<Rightarrow> map_option (\<lambda>kvs. (k, j) # kvs) (to_json_fields n h ps))"

definition stringify :: "heap \<Rightarrow> val \<Rightarrow> ser" where
  "stringify h v = to_json (length h) h v"

text \<open>\<open>JSON.parse\<close> allocates the objects of a document; a repeated key keeps its last value.\<close>

fun parse_json :: "heap \<Rightarrow> json \<Rightarrow> heap \<times> val"
  and parse_fields :: "heap \<Rightarrow> (jstring \<times> json) list \<Rightarrow> obj \<Rightarrow> heap \<times> obj" where
  "parse_json h JNull = (h, VNull)"
| "parse_json h (JBool b) = (h, VBool b)"
| "parse_json h (JNum i) = (h, VNum i)"
| "parse_json h (JStr s) = (h, VStr s)"
| "parse_json h (JObj kvs) =
     (let (h1, ob) = parse_fields h kvs [] in (h1 @ [ob], VRef (length h1)))"
| "parse_fields h [] acc = (h, acc)"
| "parse_fields h ((k, j) # kvs) acc =
     (let (h1, v) = parse_json h j in parse_fields h1 kvs (assign k v acc))"

text \<open>
  The stored snapshot: the serialised fields of a state, each of which a snapshot
  written by another version may lack.
\<close>

record stored =
  q_currentIndex :: "int option"
  q_savedAt :: "jstring option"
  q_dirty :: "bool option"
  q_saving :: "bool option"
  q_error :: "jstring option option"
  q_data :: "json option"

text \<open>
  The item under \<open>STORAGE_KEY\<close>: missing, a text that is empty or that \<open>JSON.parse\<close>
  rejects, or a snapshot. A text that denotes something other than an object (a
  number, \<open>null\<close>) is not represented.
\<close>

datatype storage = NoItem | Garbage | Item stored

text \<open>\<open>JSON.stringify({ ...state, ...payload })\<close>; \<open>None\<close> when it throws.\<close>

definition stringify_state :: "heap \<Rightarrow> wizard_state \<Rightarrow> stored option" where
  "stringify_state h x =
     (case stringify h (data x) of
        Cyclic \<Rightarrow> None
      | Omitted \<Rightarrow>
          Some \<lparr>q_currentIndex = Some (currentIndex x), q_savedAt = savedAt x,
                q_dirty = Some (dirty x), q_saving = Some (saving x), q_error = Some (error x),
                q_data = None\<rparr>
      | Doc j \<Rightarrow>
          Some \<lparr>q_currentIndex = Some (currentIndex x), q_savedAt = savedAt x,
                q_dirty = Some (dirty x), q_saving = Some (saving x), q_error = Some (error x),
                q_data = Some j\<rparr>)"

definition parse_stored :: "heap \<Rightarrow> stored \<Rightarrow> heap \<times> partial_state" where
  "parse_stored h q =
     (case q_data q of
        None \<Rightarrow>
          (h, \<lparr>p_currentIndex = q_currentIndex q, p_savedAt = q_savedAt q, p_dirty = q_dirty q,
               p_saving = q_saving q, p_error = q_error q, p_data = None\<rparr>)
      | Some j \<Rightarrow>
          (let (h1, d) = parse_json h j
           in (h1, \<lparr>p_currentIndex = q_currentIndex q, p_savedAt = q_savedAt q,
                    p_dirty = q_dirty q, p_saving = q_saving q, p_error = q_error q,
                    p_data = Some d\<rparr>)))"

text \<open>
  What a call returns or throws; of a thrown value only its \<open>message\<close> matters
  (\<open>None\<close> when it has none).
\<close>

datatype 'a result = Returned 'a | Threw "jstring option"

definition msg_network :: jstring where
  "msg_network = [0x30CD, 0x30C3, 0x30C8, 0x30EF, 0x30FC, 0x30AF, 0x30A8, 0x30E9, 0x30FC]"

definition msg_save_failed :: jstring where
  "msg_save_failed = [0x4FDD, 0x5B58, 0x306B, 0x5931, 0x6557, 0x3057, 0x307E, 0x3057, 0x305F]"

text \<open>\<open>fakeSaveToServer\<close>, given the number that \<open>Math.random()\<close> returns.\<close>

definition fakeSaveToServer :: "real \<Rightarrow> unit result" where
  "fakeSaveToServer r = (if r < 5 / 100 then Threw (Some msg_network) else Returned ())"

text \<open>\<open>e?.message || "..."\<close>.\<close>

definition error_message :: "jstring option \<Rightarrow> jstring" where
  "error_message m = (case m of None \<Rightarrow> msg_save_failed | Some t \<Rightarrow> if t = [] then msg_save_failed else t)"

text \<open>
  What a save depends on besides the state: the clock, the message of the error that
  \<open>JSON.stringify\<close> throws on a cyclic value, whether \<open>localStorage.setItem\<close> throws
  (and with which message), and the random number drawn by the server stub.
\<close>

record env =
  clock :: jstring
  cyclic_message :: "jstring option"
  setItem_throws :: "jstring option option"
  random :: real

datatype reason = Manual | Auto

type_synonym world = "heap \<times> wizard_state \<times> storage"

text \<open>
  The \<open>try\<close> block of \<open>saveDraft\<close> up to the end of the awaited call: the new content
  of the storage and how the block ends. \<open>c\<close> is the state of the render that created
  the closure; the payload repeats two of its fields.
\<close>

definition try_save :: "env \<Rightarrow> heap \<Rightarrow> wizard_state \<Rightarrow> storage \<Rightarrow> storage \<times> unit result" where
  "try_save e h c st =
     (case stringify_state h (c\<lparr>currentIndex := currentIndex c, data := data c\<rparr>) of
        None \<Rightarrow> (st, Threw (cyclic_message e))
      | Some doc \<Rightarrow>
          (case setItem_throws e of
             Some m \<Rightarrow> (st, Threw m)
           | None \<Rightarrow> (Item doc, fakeSaveToServer (random e))))"

text \<open>
  \<open>saveDraft\<close>, run with no other event handled while it awaits the server: its
  dispatches reach the reducer in order, on the live state.
\<close>

definition saveDraft :: "env \<Rightarrow> reason option \<Rightarrow> wizard_state \<Rightarrow> world \<Rightarrow> world" where
  "saveDraft e opts c w =
     (case w of (h, s, st) \<Rightarrow>
        let hs1 = dispatch (clock e) [SET_SAVING True, SET_ERROR None] (h, s);
            (st', r) = try_save e (fst hs1) c st;
            hs2 = (case r of
                     Returned u \<Rightarrow> dispatch (clock e) [SET_SAVED_AT None] hs1
                   | Threw m \<Rightarrow> dispatch (clock e) [SET_ERROR (Some (error_message m))] hs1);
            hs3 = dispatch (clock e) [SET_SAVING False] hs2;
            hs4 = (if opts = Some Manual then dispatch (clock e) [SET_DIRTY False] hs3 else hs3)
        in (fst hs4, snd hs4, st'))"

definition next_step :: "jstring \<Rightarrow> wizard_state \<Rightarrow> heap \<times> wizard_state \<Rightarrow> heap \<times> wizard_state" where
  "next_step now c hs =
     (if currentIndex c < int (length STEPS) - 1 then dispatch now [GOTO (currentIndex c + 1)] hs
      else hs)"

definition prev_step :: "jstring \<Rightarrow> wizard_state \<Rightarrow> heap \<times> wizard_state \<Rightarrow> heap \<times> wizard_state" where
  "prev_step now c hs =
     (if currentIndex c > 0 then dispatch now [GOTO (currentIndex c - 1)] hs else hs)"

definition onChange :: "jstring \<Rightarrow> jstring \<Rightarrow> val \<Rightarrow> heap \<times> wizard_state \<Rightarrow> heap \<times> wizard_state" where
  "onChange now path v hs = dispatch now [CHANGE path v] hs"

text \<open>
  The result of validation as the handler sees it. Where the model of
  \<open>validateCurrent\<close> stops at an object in the place of a string, the source goes on
  to throw, to return a message or to return no error; \<open>g\<close> stands for that outcome.
\<close>

definition validated :: "heap \<Rightarrow> wizard_state \<Rightarrow> fault + jstring option \<Rightarrow> fault + jstring option" where
  "validated h c g = (case validateCurrent h c of Inl Unmodelled \<Rightarrow> g | r \<Rightarrow> r)"

text \<open>
  \<open>handleSaveAndContinue\<close>, run with no other event handled while the save awaits the
  server. When validation throws, the handler ends there and nothing is dispatched.
\<close>

definition handleSaveAndContinue ::
  "env \<Rightarrow> fault + jstring option \<Rightarrow> wizard_state \<Rightarrow> world \<Rightarrow> world" where
  "handleSaveAndContinue e g c w =
     (case w of (h, s, st) \<Rightarrow>
        (case validated h c g of
           Inl f \<Rightarrow> w
         | Inr err \<Rightarrow>
             if err \<noteq> None \<and> err \<noteq> Some [] then
               (case dispatch (clock e) [SET_ERROR err] (h, s) of (h', s') \<Rightarrow> (h', s', st))
             else
               (case saveDraft e (Some Manual) c w of (h1, s1, st1) \<Rightarrow>
                  (case next_step (clock e) c (h1, s1) of (h2, s2) \<Rightarrow> (h2, s2, st1)))))"

text \<open>
  The start of the process, followed by the load effect: the state is the initial one,
  hydrated from the stored snapshot when there is one.
\<close>

definition launch :: "jstring \<Rightarrow> storage \<Rightarrow> world" where
  "launch now st =
     (case st of
        Item q \<Rightarrow>
          (case parse_stored initialHeap q of (h1, ps) \<Rightarrow>
             (case dispatch now [HYDRATE ps] (h1, initialState) of (h2, s2) \<Rightarrow> (h2, s2, st)))
      | _ \<Rightarrow> (initialHeap, initialState, st))"

definition resetAll :: "jstring \<Rightarrow> world \<Rightarrow> world" where
  "resetAll now w = launch now NoItem"

section \<open>The session as a transition system\<close>

text \<open>
  The executions of the component, event by event. Besides the store, the live state
  and the storage, a configuration holds the pending autosave timer, with the state
  of the render that armed it, and the saves that await the server, each with its
  environment, its reason and, for a save started by save-and-continue, the state of
  the closure whose \<open>next\<close> runs after it.
\<close>

type_synonym pending = "env \<times> reason option \<times> wizard_state option"

record config =
  store :: heap
  live :: wizard_state
  disk :: storage
  timer :: "wizard_state option"
  inflight :: "pending list"

text \<open>
  The synchronous part of the \<open>try\<close> block: \<open>JSON.stringify\<close> and \<open>setItem\<close>, for the
  state \<open>c\<close> of the closure.
\<close>

definition write_snapshot :: "env \<Rightarrow> heap \<Rightarrow> wizard_state \<Rightarrow> storage \<Rightarrow> storage \<times> unit result" where
  "write_snapshot e h c st =
     (case stringify_state h (c\<lparr>currentIndex := currentIndex c, data := data c\<rparr>) of
        None \<Rightarrow> (st, Threw (cyclic_message e))
      | Some doc \<Rightarrow>
          (case setItem_throws e of
             Some m \<Rightarrow> (st, Threw m)
           | None \<Rightarrow> (Item doc, Returned ())))"

text \<open>
  What \<open>saveDraft\<close> dispatches once its \<open>try\<close> block has ended with \<open>r\<close>: the
  timestamp or the error, then the \<open>finally\<close> block.
\<close>

definition finish_save ::
  "env \<Rightarrow> reason option \<Rightarrow> unit result \<Rightarrow> heap \<times> wizard_state \<Rightarrow> heap \<times> wizard_state" where
  "finish_save e opts r hs =
     (let hs2 = (case r of
                   Returned u \<Rightarrow> dispatch (clock e) [SET_SAVED_AT None] hs
                 | Threw m \<Rightarrow> dispatch (clock e) [SET_ERROR (Some (error_message m))] hs);
          hs3 = dispatch (clock e) [SET_SAVING False] hs2
      in if opts = Some Manual then dispatch (clock e) [SET_DIRTY False] hs3 else hs3)"

text \<open>The call of \<open>next\<close> that follows the save in \<open>handleSaveAndContinue\<close>, if any.\<close>

definition then_next ::
  "env \<Rightarrow> wizard_state option \<Rightarrow> heap \<times> wizard_state \<Rightarrow> heap \<times> wizard_state" where
  "then_next e nx hs = (case nx of None \<Rightarrow> hs | Some c \<Rightarrow> next_step (clock e) c hs)"

text \<open>
  \<open>saveDraft\<close> up to its \<open>await\<close>, called by a closure with state \<open>c\<close>: the two first
  dispatches and the snapshot. When \<open>JSON.stringify\<close> or \<open>setItem\<close> throws, the rest of
  the function runs at once; otherwise the save joins those that await the server.
\<close>

definition begin_save ::
  "env \<Rightarrow> reason option \<Rightarrow> wizard_state \<Rightarrow> wizard_state option \<Rightarrow> config \<Rightarrow> config" where
  "begin_save e opts c nx cfg =
     (let hs1 = dispatch (clock e) [SET_SAVING True, SET_ERROR None] (store cfg, live cfg)
      in case write_snapshot e (fst hs1) c (disk cfg) of
           (st', Threw m) \<Rightarrow>
             (let hs2 = then_next e nx (finish_save e opts (Threw m) hs1)
              in cfg\<lparr>store := fst hs2, live := snd hs2, disk := st'\<rparr>)
         | (st', Returned u) \<Rightarrow>
             cfg\<lparr>store := fst hs1, live := snd hs1, disk := st',
                 inflight := inflight cfg @ [(e, opts, nx)]\<rparr>)"

text \<open>
  The server answers the save at position \<open>k\<close> of those in flight: the random number
  is drawn, and the rest of \<open>saveDraft\<close> runs on the live state of that moment.
\<close>

definition complete :: "nat \<Rightarrow> config \<Rightarrow> config" where
  "complete k cfg =
     (if k < length (inflight cfg) then
        (case inflight cfg ! k of (e, opts, nx) \<Rightarrow>
           let hs2 = then_next e nx
                       (finish_save e opts (fakeSaveToServer (random e)) (store cfg, live cfg))
           in cfg\<lparr>store := fst hs2, live := snd hs2,
                  inflight := take k (inflight cfg) @ drop (Suc k) (inflight cfg)\<rparr>)
      else cfg)"

text \<open>\<open>handleSaveAndContinue\<close> up to the \<open>await\<close> of its save.\<close>

definition begin_save_and_continue ::
  "env \<Rightarrow> fault + jstring option \<Rightarrow> wizard_state \<Rightarrow> config \<Rightarrow> config" where
  "begin_save_and_continue e g c cfg =
     (case validated (store cfg) c g of
        Inl f \<Rightarrow> cfg
      | Inr err \<Rightarrow>
          if err \<noteq> None \<and> err \<noteq> Some [] then
            (let hs = dispatch (clock e) [SET_ERROR err] (store cfg, live cfg)
             in cfg\<lparr>store := fst hs, live := snd hs\<rparr>)
          else begin_save e (Some Manual) c (Some c) cfg)"

text \<open>
  The page after a load: the launch, no save in flight, and the timer armed by the
  autosave effect when the hydrated state is dirty.
\<close>

definition boot :: "jstring \<Rightarrow> storage \<Rightarrow> config" where
  "boot now st =
     (case launch now st of (h, s, st') \<Rightarrow>
        \<lparr>store = h, live = s, disk = st', timer = (if dirty s then Some s else None),
         inflight = []\<rparr>)"

text \<open>
  The events. A click runs the handler of the latest render, whose closure holds the
  live state. An edit dispatches \<open>CHANGE\<close>; the data and \<open>dirty\<close> change, so the autosave
  effect runs again, clears the pending timer and arms one for the new render. No
  other event arms or clears the timer: the effect depends on the data, on \<open>dirty\<close>
  and on \<open>loaded\<close> only, and returns at once when the state is not dirty. A timer that
  fires calls the \<open>saveDraft\<close> of the render that armed it. The saves in flight may be
  answered in any order, and the timer may fire at any moment: the delays of the
  source (600 and 1500 ms) select some of these executions. A reload or a reset drops
  the timer and the saves in flight. A step button exists for the indices of \<open>STEPS\<close>
  only; the save button is disabled while the live state is saving. \<open>ClickNext\<close> is a
  call of \<open>next\<close> by the latest render: the view has no button for it and calls it
  after the save of save-and-continue only, which is part of \<open>Completes\<close>.
\<close>

datatype event =
    ClickStep nat
  | ClickNext
  | ClickPrev
  | Edit jstring val
  | ClickSave env
  | ClickSaveAndContinue env "fault + jstring option"
  | TimerFires env
  | Completes nat
  | Reload
  | ClickReset

fun event_ok :: "event \<Rightarrow> bool" where
  "event_ok (ClickStep i) = (i < length STEPS)"
| "event_ok _ = True"

fun step :: "jstring \<Rightarrow> event \<Rightarrow> config \<Rightarrow> config" where
  "step now (ClickStep i) cfg =
     (let hs = dispatch now [GOTO (int i)] (store cfg, live cfg)
      in cfg\<lparr>store := fst hs, live := snd hs\<rparr>)"
| "step now ClickNext cfg =
     (let hs = next_step now (live cfg) (store cfg, live cfg)
      in cfg\<lparr>store := fst hs, live := snd hs\<rparr>)"
| "step now ClickPrev cfg =
     (let hs = prev_step now (live cfg) (store cfg, live cfg)
      in cfg\<lparr>store := fst hs, live := snd hs\<rparr>)"
| "step now (Edit path v) cfg =
     (let hs = onChange now path v (store cfg, live cfg)
      in cfg\<lparr>store := fst hs, live := snd hs, timer := Some (snd hs)\<rparr>)"
| "step now (ClickSave e) cfg =
     (if saving (live cfg) then cfg else begin_save e (Some Manual) (live cfg) None cfg)"
| "step now (ClickSaveAndContinue e g) cfg = begin_save_and_continue e g (live cfg) cfg"
| "step now (TimerFires e) cfg =
     (case timer cfg of
        None \<Rightarrow> cfg
      | Some c \<Rightarrow> begin_save e (Some Auto) c None (cfg\<lparr>timer := None\<rparr>))"
| "step now (Completes k) cfg = complete k cfg"
| "step now Reload cfg = boot now (disk cfg)"
| "step now ClickReset cfg =
     (case resetAll now (store cfg, live cfg, disk cfg) of (h, s, st) \<Rightarrow> boot now st)"

fun exec :: "jstring \<Rightarrow> event list \<Rightarrow> config \<Rightarrow> config" where
  "exec now [] cfg = cfg"
| "exec now (ev # evs) cfg = exec now evs (step now ev cfg)"

text \<open>
  The indices of a configuration are in range when the live state, the stored
  snapshot if it has an index, the state of the pending timer and the closures whose
  \<open>next\<close> is still to run all hold an index of \<open>STEPS\<close>.
\<close>

definition in_range :: "wizard_state \<Rightarrow> bool" where
  "in_range s = (0 \<le> currentIndex s \<and> currentIndex s < int (length STEPS))"

fun storage_ok :: "storage \<Rightarrow> bool" where
  "storage_ok (Item q) =
     (case q_currentIndex q of None \<Rightarrow> True | Some i \<Rightarrow> 0 \<le> i \<and> i < int (length STEPS))"
| "storage_ok _ = True"

fun pending_ok :: "pending \<Rightarrow> bool" where
  "pending_ok (e, opts, nx) = (case nx of None \<Rightarrow> True | Some c \<Rightarrow> in_range c)"

definition config_ok :: "config \<Rightarrow> bool" where
  "config_ok cfg =
     (in_range (live cfg) \<and> storage_ok (disk cfg)
      \<and> (case timer cfg of None \<Rightarrow> True | Some c \<Rightarrow> in_range c)
      \<and> list_all pending_ok (inflight cfg))"

text \<open>
  A document is well formed when no object of it repeats a key, as in every text that
  \<open>JSON.stringify\<close> produces; its depth is the nesting of its objects. The objects of
  a store have distinct keys.
\<close>

fun wf_json :: "json \<Rightarrow> bool"
  and wf_fields :: "(jstring \<times> json) list \<Rightarrow> bool" where
  "wf_json (JObj kvs) = (distinct (map fst kvs) \<and> wf_fields kvs)"
| "wf_json _ = True"
| "wf_fields [] = True"
| "wf_fields ((k, j) # kvs) = (wf_json j \<and> wf_fields kvs)"

fun depth :: "json \<Rightarrow> nat"
  and depth_fields :: "(jstring \<times> json) list \<Rightarrow> nat" where
  "depth (JObj kvs) = Suc (depth_fields kvs)"
| "depth _ = 0"
| "depth_fields [] = 0"
| "depth_fields ((k, j) # kvs) = max (depth j) (depth_fields kvs)"

definition keys_distinct :: "heap \<Rightarrow> bool" where
  "keys_distinct h = list_all (\<lambda>ob. distinct (map fst ob)) h"

section \<open>Example inputs\<close>

text \<open>
  Two environments, in which the server stub succeeds and fails, a dirty state over the
  initial store, and the snapshot that a save writes for it.
\<close>

definition env_up :: env where
  "env_up = \<lparr>clock = ascii ''2024-01-01T00:00:00.000Z'', cyclic_message = Some (ascii ''cyclic''),
             setItem_throws = None, random = 1 / 2\<rparr>"

definition env_down :: env where
  "env_down = \<lparr>clock = ascii ''2024-01-01T00:00:00.000Z'', cyclic_message = Some (ascii ''cyclic''),
               setItem_throws = None, random = 0\<rparr>"

definition dirtyState :: wizard_state where
  "dirtyState = initialState\<lparr>dirty := True\<rparr>"

definition initialDoc :: stored where
  "initialDoc =
     \<lparr>q_currentIndex = Some 0, q_savedAt = None, q_dirty = Some True, q_saving = Some False,
      q_error = Some None,
      q_data = Some (JObj
        [(ascii ''account'', JObj [(ascii ''email'', JStr []), (ascii ''password'', JStr [])]),
         (ascii ''company'', JObj [(ascii ''nameJa'', JStr []), (ascii ''nameEn'', JStr []),
                                   (ascii ''address'', JStr [])]),
         (ascii ''members'', JObj [(ascii ''ceo'', JStr []), (ascii ''directors'', JStr [])]),
         (ascii ''docs'', JObj [(ascii ''hankoReady'', JBool False), (ascii ''bankCert'', JBool False)]),
         (ascii ''review'', JObj [(ascii ''agree'', JBool False)])])\<rparr>"

text \<open>The initial store with the two fields of the account section filled in.\<close>

definition account_store :: "jstring \<Rightarrow> jstring \<Rightarrow> heap" where
  "account_store email password =
     initialHeap[0 := [(ascii ''email'', VStr email), (ascii ''password'', VStr password)]]"

text \<open>The snapshot that a save writes for the dirty state over that store.\<close>

definition filledDoc :: stored where
  "filledDoc =
     \<lparr>q_currentIndex = Some 0, q_savedAt = None, q_dirty = Some True, q_saving = Some False,
      q_error = Some None,
      q_data = Some (JObj
        [(ascii ''account'', JObj [(ascii ''email'', JStr (ascii ''a@b.com'')),
                                   (ascii ''password'', JStr (ascii ''12345678''))]),
         (ascii ''company'', JObj [(ascii ''nameJa'', JStr []), (ascii ''nameEn'', JStr []),
                                   (ascii ''address'', JStr [])]),
         (ascii ''members'', JObj [(ascii ''ceo'', JStr []), (ascii ''directors'', JStr [])]),
         (ascii ''docs'', JObj [(ascii ''hankoReady'', JBool False), (ascii ''bankCert'', JBool False)]),
         (ascii ''review'', JObj [(ascii ''agree'', JBool False)])])\<rparr>"

text \<open>
  A session in which the autosave timer fires for an earlier render: an edit arms the
  timer at index 0, a step button moves to index 2, the timer fires and the server
  answers.
\<close>

definition staleTimerRun :: "event list" where
  "staleTimerRun =
     [Edit (ascii ''data.account.email'') (VStr (ascii ''x'')), ClickStep 2, TimerFires env_up,
      Completes 0]"

text \<open>A store extends another when it keeps every object of it unchanged.\<close>

definition extends :: "heap \<Rightarrow> heap \<Rightarrow> bool" where
  "extends h H = (length h \<le> length H \<and> (\<forall>a<length h. H ! a = h ! a))"

text \<open>A list of keys leads from a value to \<open>v\<close> through existing properties.\<close>

fun holds_at :: "heap \<Rightarrow> val \<Rightarrow> jstring list \<Rightarrow> val \<Rightarrow> bool" where
  "holds_at h (VRef a) [k] v = (a < length h \<and> map_of (h ! a) k = Some v)"
| "holds_at h (VRef a) (k # ks) v =
     (a < length h \<and> (case map_of (h ! a) k of None \<Rightarrow> False | Some w \<Rightarrow> holds_at h w ks v))"
| "holds_at h _ _ _ = False"

section \<open>Properties of the path-set utility\<close>

lemma map_of_assign: "map_of (assign k v ps) k' = (if k' = k then Some v else map_of ps k')"
  by (induction ps) auto

lemma keys_assign:
  "map fst (assign k v ps) = (if k \<in> fst ` set ps then map fst ps else map fst ps @ [k])"
  by (induction ps) force+

lemma set_assign: "set (assign k v ps) \<subseteq> insert (k, v) (set ps)"
  by (induction ps) (auto split: if_splits)

lemma length_put_prop [simp]: "length (put_prop h a k v) = length h"
  by (simp add: put_prop_def)

lemma length_set_loop: "length (set_loop h cur ks v) = length h + (length ks - 1)"
  by (induction h cur ks v rule: set_loop.induct) (simp_all add: Let_def)

lemma set_loop_frame:
  "a < length h \<Longrightarrow> a \<noteq> cur \<Longrightarrow> set_loop h cur ks v ! a = h ! a"
proof (induction h cur ks v rule: set_loop.induct)
  case (1 h cur v)
  then show ?case by (simp add: put_prop_def)
next
  case (2 h cur k v)
  then show ?case by (simp add: put_prop_def)
next
  case (3 h cur k k' ks v)
  then show ?case by (simp add: Let_def put_prop_def nth_append)
qed

lemma set_loop_cur:
  "cur < length h \<Longrightarrow>
   set_loop h cur (k # ks) v ! cur = assign k (if ks = [] then v else VRef (length h)) (h ! cur)"
proof (cases ks)
  case Nil
  assume "cur < length h"
  then show ?thesis using Nil by (simp add: put_prop_def obj_at_def)
next
  case (Cons k' ks')
  assume c: "cur < length h"
  then show ?thesis using Cons
    by (simp add: Let_def set_loop_frame put_prop_def obj_at_def nth_append)
qed

lemma lookup_set_loop:
  "cur < length h \<Longrightarrow> ks \<noteq> [] \<Longrightarrow> lookup (set_loop h cur ks v) (VRef cur) ks = v"
proof (induction h cur ks v rule: set_loop.induct)
  case (1 h cur v)
  then show ?case by simp
next
  case (2 h cur k v)
  then show ?case by (simp add: put_prop_def get_prop_def obj_at_def map_of_assign)
next
  case (3 h cur k k' ks v)
  let ?h2 = "put_prop (h @ [spread h (get_prop h cur k)]) cur k (VRef (length h))"
  let ?h' = "set_loop ?h2 (length h) (k' # ks) v"
  have len: "length h \<le> length ?h'" by (simp add: length_set_loop)
  have "?h' ! cur = ?h2 ! cur"
    using 3(2) by (intro set_loop_frame) simp_all
  then have "get_prop ?h' cur k = VRef (length h)"
    using 3(2) len
    by (simp add: get_prop_def obj_at_def put_prop_def map_of_assign nth_append length_set_loop)
  moreover have "lookup ?h' (VRef (length h)) (k' # ks) = v"
    using 3(1)[OF refl refl refl] by simp
  ultimately show ?case by (simp add: Let_def)
qed

lemma extends_refl: "extends h h"
  by (simp add: extends_def)

lemma extends_trans: "extends h1 h2 \<Longrightarrow> extends h2 h3 \<Longrightarrow> extends h1 h3"
  by (auto simp: extends_def)

lemma extends_append: "extends h (h @ xs)"
  by (simp add: extends_def nth_append)

lemma extends_put_prop: "length h \<le> cur \<Longrightarrow> extends h H \<Longrightarrow> extends h (put_prop H cur k v)"
  by (auto simp: extends_def put_prop_def)

lemma extends_set_loop: "length h \<le> cur \<Longrightarrow> extends h H \<Longrightarrow> extends h (set_loop H cur ks v)"
  by (auto simp: extends_def length_set_loop set_loop_frame)

lemma extends_obj_at: "extends h H \<Longrightarrow> a < length h \<Longrightarrow> obj_at H a = obj_at h a"
  by (auto simp: extends_def obj_at_def)

lemma extends_get_prop: "extends h H \<Longrightarrow> a < length h \<Longrightarrow> get_prop H a k = get_prop h a k"
  by (simp add: get_prop_def extends_obj_at)

lemma extends_val_ok: "extends h H \<Longrightarrow> val_ok h w \<Longrightarrow> val_ok H w"
  by (cases w) (auto simp: extends_def)

lemma heap_ok_get_prop: "heap_ok h \<Longrightarrow> val_ok h (get_prop h a k)"
proof -
  assume ok: "heap_ok h"
  show ?thesis
  proof (cases "map_of (obj_at h a) k")
    case None
    then show ?thesis by (simp add: get_prop_def)
  next
    case (Some w)
    then have "(k, w) \<in> set (obj_at h a)" by (rule map_of_SomeD)
    then have "a < length h" "(k, w) \<in> set (h ! a)"
      by (auto simp: obj_at_def split: if_splits)
    with ok have "val_ok h w"
      by (fastforce simp: heap_ok_def list_all_iff)
    with Some show ?thesis by (simp add: get_prop_def)
  qed
qed

lemma lookup_ok: "heap_ok h \<Longrightarrow> val_ok h w \<Longrightarrow> val_ok h (lookup h w r)"
  by (induction h w r rule: lookup.induct) (simp_all add: heap_ok_get_prop)

lemma lookup_extends:
  "heap_ok h \<Longrightarrow> extends h H \<Longrightarrow> val_ok h w \<Longrightarrow> lookup H w r = lookup h w r"
proof (induction h w r rule: lookup.induct)
  case (2 h a k ks)
  then have "get_prop H a k = get_prop h a k" by (simp add: extends_get_prop)
  moreover have "val_ok h (get_prop h a k)" using 2 by (simp add: heap_ok_get_prop)
  ultimately show ?case using 2 by simp
qed simp_all

lemma own_keys_extends: "extends h H \<Longrightarrow> val_ok h w \<Longrightarrow> own_keys H w = own_keys h w"
  by (cases w) (simp_all add: extends_obj_at)

lemma lookup_append: "lookup h w (p @ r) = lookup h (lookup h w p) r"
  by (induction h w p rule: lookup.induct) (simp_all, (cases r; simp)+)

lemma get_prop_assign:
  "cur < length H \<Longrightarrow> H ! cur = assign k0 x ob \<Longrightarrow>
   get_prop H cur k = (if k = k0 then x else (case map_of ob k of None \<Rightarrow> VUndefined | Some v \<Rightarrow> v))"
  by (simp add: get_prop_def obj_at_def map_of_assign)

lemma valid_path_RefD: "valid_path h (VRef a) ks \<Longrightarrow> a < length h"
  by (cases "(h, VRef a, ks)" rule: valid_path.cases) auto

lemma set_loop_sibling:
  "heap_ok h \<Longrightarrow> extends h H \<Longrightarrow> length h \<le> cur \<Longrightarrow> cur < length H \<Longrightarrow>
   a0 < length h \<Longrightarrow> H ! cur = h ! a0 \<Longrightarrow> valid_path h (VRef a0) ks \<Longrightarrow>
   i < length ks \<Longrightarrow> k \<noteq> ks ! i \<Longrightarrow>
   lookup (set_loop H cur ks v) (VRef cur) (take i ks @ k # r) = lookup h (VRef a0) (take i ks @ k # r)"
proof (induction H cur ks v arbitrary: a0 i rule: set_loop.induct)
  case (1 H cur v)
  then show ?case by simp
next
  case (2 H cur k0 v)
  let ?H' = "put_prop H cur k0 v"
  have i0: "i = 0" using 2 by simp
  have ext: "extends h ?H'" using 2 by (simp add: extends_put_prop)
  have cur: "?H' ! cur = assign k0 v (h ! a0)" using 2 by (simp add: put_prop_def obj_at_def)
  have "get_prop ?H' cur k = get_prop h a0 k"
    using 2 i0 get_prop_assign[OF _ cur, of k] by (simp add: get_prop_def obj_at_def)
  moreover have "lookup ?H' (get_prop h a0 k) r = lookup h (get_prop h a0 k) r"
    using 2 ext by (intro lookup_extends) (simp_all add: heap_ok_get_prop)
  ultimately show ?case using i0 by simp
next
  case (3 H cur k0 k1 ks v)
  let ?fresh = "length H"
  let ?H1 = "H @ [spread H (get_prop H cur k0)]"
  let ?H2 = "put_prop ?H1 cur k0 (VRef ?fresh)"
  let ?H' = "set_loop ?H2 ?fresh (k1 # ks) v"
  from 3(8) obtain a1 where a1: "get_prop h a0 k0 = VRef a1" "a1 < length h"
    and v1: "valid_path h (VRef a1) (k1 # ks)"
    by (cases "get_prop h a0 k0") (auto dest: valid_path_RefD)
  have gp: "get_prop H cur k0 = VRef a1"
    using 3 a1 by (simp add: get_prop_def obj_at_def)
  have ext2: "extends h ?H2"
    using 3 by (intro extends_put_prop extends_trans[OF _ extends_append]) simp_all
  have ext': "extends h ?H'"
    using 3 ext2 by (intro extends_set_loop) simp_all
  have fresh: "?H2 ! ?fresh = h ! a1"
    using 3 a1 gp by (simp add: put_prop_def extends_obj_at) (simp add: obj_at_def)
  have cur2: "?H2 ! cur = assign k0 (VRef ?fresh) (h ! a0)"
    using 3 by (simp add: put_prop_def obj_at_def nth_append)
  have "?H' ! cur = ?H2 ! cur"
    using 3 by (intro set_loop_frame) simp_all
  then have cur': "?H' ! cur = assign k0 (VRef ?fresh) (h ! a0)" using cur2 by simp
  have lcur: "cur < length ?H'" using 3 by (simp add: length_set_loop)
  show ?case
  proof (cases i)
    case 0
    then have "k \<noteq> k0" using 3 by simp
    then have "get_prop ?H' cur k = get_prop h a0 k"
      using 3 get_prop_assign[OF lcur cur', of k] by (simp add: get_prop_def obj_at_def)
    moreover have "lookup ?H' (get_prop h a0 k) r = lookup h (get_prop h a0 k) r"
      using 3 ext' by (intro lookup_extends) (simp_all add: heap_ok_get_prop)
    ultimately show ?thesis using 0 by (simp add: Let_def)
  next
    case (Suc j)
    have "get_prop ?H' cur k0 = VRef ?fresh"
      using get_prop_assign[OF lcur cur', of k0] by simp
    moreover have "lookup ?H' (VRef ?fresh) (take j (k1 # ks) @ k # r)
        = lookup h (VRef a1) (take j (k1 # ks) @ k # r)"
      using 3(2-) Suc a1 v1 ext2 fresh
      by (intro 3(1)[OF refl refl refl]) simp_all
    ultimately show ?thesis using Suc a1 by (simp add: Let_def)
  qed
qed

lemma split_dot_nonempty: "split_dot p \<noteq> []"
  by (induction p) (auto split: list.splits)

lemma set_loop_prefix:
  "cur < length H \<Longrightarrow> i < length ks \<Longrightarrow>
   lookup (set_loop H cur ks v) (VRef cur) (take i ks)
     = VRef (if i = 0 then cur else length H + i - 1)"
proof (induction H cur ks v arbitrary: i rule: set_loop.induct)
  case (1 H cur v)
  then show ?case by simp
next
  case (2 H cur k v)
  then show ?case by simp
next
  case (3 H cur k0 k1 ks v)
  let ?fresh = "length H"
  let ?H2 = "put_prop (H @ [spread H (get_prop H cur k0)]) cur k0 (VRef ?fresh)"
  let ?H' = "set_loop ?H2 ?fresh (k1 # ks) v"
  show ?case
  proof (cases i)
    case 0
    then show ?thesis by simp
  next
    case (Suc j)
    have lcur: "cur < length ?H'" using 3 by (simp add: length_set_loop)
    have "?H' ! cur = ?H2 ! cur"
      using 3 by (intro set_loop_frame) simp_all
    then have cur': "?H' ! cur = assign k0 (VRef ?fresh) (H ! cur)"
      using 3 by (simp add: put_prop_def obj_at_def nth_append)
    have "get_prop ?H' cur k0 = VRef ?fresh"
      using get_prop_assign[OF lcur cur', of k0] by simp
    moreover have "lookup ?H' (VRef ?fresh) (take j (k1 # ks))
        = VRef (if j = 0 then ?fresh else length ?H2 + j - 1)"
      using 3(2-) Suc by (intro 3(1)[OF refl refl refl]) simp_all
    ultimately show ?thesis using Suc by (simp add: Let_def)
  qed
qed

lemma set_path_frame: "a < length h \<Longrightarrow> fst (set_path h ob p v) ! a = h ! a"
  by (simp add: set_path_def Let_def set_loop_frame nth_append)

lemma set_path_length:
  "length (fst (set_path h ob p v)) = length h + length (split_dot p)"
  using split_dot_nonempty[of p]
  by (cases "split_dot p") (simp_all add: set_path_def Let_def length_set_loop)

lemma set_path_lookup:
  "lookup (fst (set_path h ob p v)) (snd (set_path h ob p v)) (split_dot p) = v"
  by (simp add: set_path_def Let_def lookup_set_loop split_dot_nonempty)

lemma set_path_prefix:
  "i < length (split_dot p) \<Longrightarrow>
   lookup (fst (set_path h ob p v)) (snd (set_path h ob p v)) (take i (split_dot p))
     = VRef (length h + i)"
  using set_loop_prefix[of "length h" "h @ [spread h ob]" i "split_dot p" v]
  by (auto simp: set_path_def Let_def)

text \<open>
  Claim C9, as the code has it. For every container, value and dotted path with no
  \<open>__proto__\<close> segment, whether or not its segments exist in the container,
  \<open>set\<close> returns a container in which the value is read back along the whole path and
  in which every proper prefix of the path, the empty one included, leads to an object
  allocated by the call: where a segment was missing, an intermediate object has been
  created. The call allocates one object per segment and leaves every object of the
  input as it was.
\<close>

theorem set_path_creates_objects:
  assumes "proto_key \<notin> set (split_dot p)"
  shows "lookup (fst (set_path h ob p v)) (snd (set_path h ob p v)) (split_dot p) = v
    \<and> (\<forall>i<length (split_dot p).
          lookup (fst (set_path h ob p v)) (snd (set_path h ob p v)) (take i (split_dot p))
            = VRef (length h + i))
    \<and> length (fst (set_path h ob p v)) = length h + length (split_dot p)
    \<and> (\<forall>a<length h. fst (set_path h ob p v) ! a = h ! a)"
  by (simp add: set_path_lookup set_path_prefix set_path_length set_path_frame)

text \<open>
  Claim C9 on the empty container and the path \<open>a.b\<close>: the segment \<open>a\<close> is missing,
  and the result holds a new object under it.
\<close>

theorem set_path_creates_objects_witness:
  "proto_key \<notin> set (split_dot (ascii ''a.b''))
   \<and> lookup [[]] (VRef 0) [ascii ''a''] = VUndefined
   \<and> lookup (fst (set_path [[]] (VRef 0) (ascii ''a.b'') (VNum 1)))
        (snd (set_path [[]] (VRef 0) (ascii ''a.b'') (VNum 1))) (split_dot (ascii ''a.b'')) = VNum 1
   \<and> lookup (fst (set_path [[]] (VRef 0) (ascii ''a.b'') (VNum 1)))
        (snd (set_path [[]] (VRef 0) (ascii ''a.b'') (VNum 1))) (take 1 (split_dot (ascii ''a.b''))) = VRef 2
   \<and> fst (set_path [[]] (VRef 0) (ascii ''a.b'') (VNum 1)) ! 0 = []"
proof -
  have p: "proto_key \<notin> set (split_dot (ascii ''a.b''))"
    by (simp add: proto_key_def ascii_def)
  have l: "(1::nat) < length (split_dot (ascii ''a.b''))"
    by (simp add: ascii_def)
  have u: "lookup [[]] (VRef 0) [ascii ''a''] = VUndefined"
    by (simp add: get_prop_def obj_at_def)
  from set_path_creates_objects[OF p, of "[[]]" "VRef 0" "VNum 1"] l u p
  show ?thesis by simp
qed

text \<open>
  Claim C9 as it is worded fails: on the empty container \<open>{}\<close> and the path \<open>a.b\<close>,
  the result is \<open>{a: {b: 1}}\<close>, with an intermediate object created for the missing
  segment \<open>a\<close>.
\<close>

theorem set_path_missing_segment_counterexample:
  "lookup [[]] (VRef 0) [ascii ''a''] = VUndefined
   \<and> fst (set_path [[]] (VRef 0) (ascii ''a.b'') (VNum 1))
       = [[], [(ascii ''a'', VRef 2)], [(ascii ''b'', VNum 1)]]
   \<and> snd (set_path [[]] (VRef 0) (ascii ''a.b'') (VNum 1)) = VRef 1"
  by (simp add: set_path_def ascii_def put_prop_def obj_at_def get_prop_def)

lemma set_loop_keys:
  "heap_ok h \<Longrightarrow> extends h H \<Longrightarrow> length h \<le> cur \<Longrightarrow> cur < length H \<Longrightarrow>
   a0 < length h \<Longrightarrow> H ! cur = h ! a0 \<Longrightarrow> valid_path h (VRef a0) ks \<Longrightarrow> i < length ks \<Longrightarrow>
   own_keys (set_loop H cur ks v) (lookup (set_loop H cur ks v) (VRef cur) (take i ks))
     = (let K = own_keys h (lookup h (VRef a0) (take i ks))
        in if ks ! i \<in> set K then K else K @ [ks ! i])"
proof (induction H cur ks v arbitrary: a0 i rule: set_loop.induct)
  case (1 H cur v)
  then show ?case by simp
next
  case (2 H cur k0 v)
  then show ?case
    by (simp add: put_prop_def obj_at_def keys_assign)
next
  case (3 H cur k0 k1 ks v)
  let ?fresh = "length H"
  let ?H1 = "H @ [spread H (get_prop H cur k0)]"
  let ?H2 = "put_prop ?H1 cur k0 (VRef ?fresh)"
  let ?H' = "set_loop ?H2 ?fresh (k1 # ks) v"
  from 3(8) obtain a1 where a1: "get_prop h a0 k0 = VRef a1" "a1 < length h"
    and v1: "valid_path h (VRef a1) (k1 # ks)"
    by (cases "get_prop h a0 k0") (auto dest: valid_path_RefD)
  have gp: "get_prop H cur k0 = VRef a1"
    using 3 a1 by (simp add: get_prop_def obj_at_def)
  have ext2: "extends h ?H2"
    using 3 by (intro extends_put_prop extends_trans[OF _ extends_append]) simp_all
  have fresh: "?H2 ! ?fresh = h ! a1"
    using 3 a1 gp by (simp add: put_prop_def extends_obj_at) (simp add: obj_at_def)
  have cur2: "?H2 ! cur = assign k0 (VRef ?fresh) (h ! a0)"
    using 3 by (simp add: put_prop_def obj_at_def nth_append)
  have "?H' ! cur = ?H2 ! cur"
    using 3 by (intro set_loop_frame) simp_all
  then have cur': "?H' ! cur = assign k0 (VRef ?fresh) (h ! a0)" using cur2 by simp
  have lcur: "cur < length ?H'" using 3 by (simp add: length_set_loop)
  show ?case
  proof (cases i)
    case 0
    then show ?thesis
      using 3 cur' lcur by (simp add: Let_def obj_at_def keys_assign)
  next
    case (Suc j)
    have "get_prop ?H' cur k0 = VRef ?fresh"
      using get_prop_assign[OF lcur cur', of k0] by simp
    moreover have "own_keys ?H' (lookup ?H' (VRef ?fresh) (take j (k1 # ks)))
        = (let K = own_keys h (lookup h (VRef a1) (take j (k1 # ks)))
           in if (k1 # ks) ! j \<in> set K then K else K @ [(k1 # ks) ! j])"
      using 3(2-) Suc a1 v1 ext2 fresh
      by (intro 3(1)[OF refl refl refl]) simp_all
    ultimately show ?thesis using Suc a1 by (simp add: Let_def)
  qed
qed

lemma fst_set_path:
  "fst (set_path h ob p v) = set_loop (h @ [spread h ob]) (length h) (split_dot p) v"
  by (simp add: set_path_def Let_def)

lemma snd_set_path: "snd (set_path h ob p v) = VRef (length h)"
  by (simp add: set_path_def Let_def)

lemma set_path_sibling:
  assumes "heap_ok h" "valid_path h ob (split_dot p)"
    and "i < length (split_dot p)" "k \<noteq> split_dot p ! i"
  shows "lookup (fst (set_path h ob p v)) (snd (set_path h ob p v)) (take i (split_dot p) @ k # r)
     = lookup h ob (take i (split_dot p) @ k # r)"
proof -
  from assms(2) obtain a0 where ob: "ob = VRef a0" and a0: "a0 < length h"
    by (cases ob) (auto dest: valid_path_RefD)
  show ?thesis
    using assms a0 unfolding ob fst_set_path snd_set_path
    by (intro set_loop_sibling[where h = h]) (simp_all add: extends_append obj_at_def)
qed

lemma set_path_keys:
  assumes "heap_ok h" "valid_path h ob (split_dot p)" "i < length (split_dot p)"
  shows "own_keys (fst (set_path h ob p v))
           (lookup (fst (set_path h ob p v)) (snd (set_path h ob p v)) (take i (split_dot p)))
     = (let K = own_keys h (lookup h ob (take i (split_dot p)))
        in if split_dot p ! i \<in> set K then K else K @ [split_dot p ! i])"
proof -
  from assms(2) obtain a0 where ob: "ob = VRef a0" and a0: "a0 < length h"
    by (cases ob) (auto dest: valid_path_RefD)
  show ?thesis
    using assms a0 unfolding ob fst_set_path snd_set_path
    by (intro set_loop_keys[where h = h]) (simp_all add: extends_append obj_at_def)
qed

text \<open>
  Claim C3. In a closed store, for every state \<open>s\<close>, every path \<open>p\<close> that is valid in
  the data of \<open>s\<close> (no \<open>__proto__\<close> segment) and every value \<open>v\<close>, the action
  \<open>CHANGE p v\<close> yields a state with the same \<open>currentIndex\<close>, \<open>savedAt\<close>, \<open>saving\<close>
  and \<open>error\<close>, with \<open>dirty\<close> set, and with \<open>v\<close> at \<open>p\<close> in its data. No object of the
  store of \<open>s\<close> is modified. Every list of keys that leaves \<open>p\<close> at some level through
  another key reads the very same value in the new data as in the old: a sibling
  branch is the same reference, to an object left as it was. The objects along \<open>p\<close>
  have the keys they had, as a set, and the last key of \<open>p\<close> when it was missing.
\<close>

theorem change_frame:
  assumes "heap_ok h" and "valid_path h (data s) (split_dot p)"
    and "proto_key \<notin> set (split_dot p)"
    and "reducer now h s (CHANGE p v) = (h', s')"
  shows "currentIndex s' = currentIndex s \<and> savedAt s' = savedAt s \<and> saving s' = saving s
      \<and> error s' = error s \<and> dirty s'
    \<and> lookup h' (data s') (split_dot p) = v
    \<and> (\<forall>a<length h. h' ! a = h ! a)
    \<and> (\<forall>i<length (split_dot p). \<forall>k r. k \<noteq> split_dot p ! i \<longrightarrow>
          lookup h' (data s') (take i (split_dot p) @ k # r)
            = lookup h (data s) (take i (split_dot p) @ k # r))
    \<and> (\<forall>i<length (split_dot p).
          set (own_keys h' (lookup h' (data s') (take i (split_dot p))))
            = insert (split_dot p ! i) (set (own_keys h (lookup h (data s) (take i (split_dot p))))))"
proof -
  let ?r = "set_path h (data s) p v"
  from assms(4) have h': "h' = fst ?r" and s': "s' = s\<lparr>data := snd ?r, dirty := True\<rparr>"
    by (auto simp: Let_def split: prod.splits)
  have d: "data s' = snd ?r" using s' by simp
  have 1: "currentIndex s' = currentIndex s \<and> savedAt s' = savedAt s \<and> saving s' = saving s
      \<and> error s' = error s \<and> dirty s'"
    using s' by simp
  have 2: "lookup h' (data s') (split_dot p) = v"
    unfolding h' d by (rule set_path_lookup)
  have 3: "\<forall>a<length h. h' ! a = h ! a"
    unfolding h' by (simp add: set_path_frame)
  have 4: "\<forall>i<length (split_dot p). \<forall>k r. k \<noteq> split_dot p ! i \<longrightarrow>
          lookup h' (data s') (take i (split_dot p) @ k # r)
            = lookup h (data s) (take i (split_dot p) @ k # r)"
    unfolding h' d using assms(1,2) by (auto intro: set_path_sibling)
  have 5: "\<forall>i<length (split_dot p).
          set (own_keys h' (lookup h' (data s') (take i (split_dot p))))
            = insert (split_dot p ! i) (set (own_keys h (lookup h (data s) (take i (split_dot p)))))"
  proof (intro allI impI)
    fix i assume i: "i < length (split_dot p)"
    let ?K = "own_keys h (lookup h (data s) (take i (split_dot p)))"
    have "own_keys h' (lookup h' (data s') (take i (split_dot p)))
        = (if split_dot p ! i \<in> set ?K then ?K else ?K @ [split_dot p ! i])"
      unfolding h' d using set_path_keys[OF assms(1,2) i, of v] by (simp add: Let_def)
    then show "set (own_keys h' (lookup h' (data s') (take i (split_dot p))))
        = insert (split_dot p ! i) (set ?K)"
      by auto
  qed
  from 1 2 3 4 5 show ?thesis by blast
qed

lemma heap_ok_initialHeap: "heap_ok initialHeap"
  by (simp add: heap_ok_def initialHeap_def)

lemma split_account_email:
  "split_dot (ascii ''account.email'') = [ascii ''account'', ascii ''email'']"
  by (simp add: ascii_def)

text \<open>
  Claim C3 on the initial state and the path \<open>account.email\<close>: the value is read back,
  and the sibling section \<open>company\<close> is still the object at address 1, unchanged.
\<close>

theorem change_frame_witness:
  "heap_ok initialHeap
   \<and> valid_path initialHeap (data initialState) (split_dot (ascii ''account.email''))
   \<and> proto_key \<notin> set (split_dot (ascii ''account.email''))
   \<and> lookup (fst (reducer [] initialHeap initialState (CHANGE (ascii ''account.email'') (VStr (ascii ''x'')))))
        (data (snd (reducer [] initialHeap initialState (CHANGE (ascii ''account.email'') (VStr (ascii ''x''))))))
        [ascii ''account'', ascii ''email''] = VStr (ascii ''x'')
   \<and> lookup (fst (reducer [] initialHeap initialState (CHANGE (ascii ''account.email'') (VStr (ascii ''x'')))))
        (data (snd (reducer [] initialHeap initialState (CHANGE (ascii ''account.email'') (VStr (ascii ''x''))))))
        [ascii ''company''] = VRef 1
   \<and> fst (reducer [] initialHeap initialState (CHANGE (ascii ''account.email'') (VStr (ascii ''x'')))) ! 1
        = initialHeap ! 1"
proof -
  let ?p = "ascii ''account.email''"
  let ?r = "reducer [] initialHeap initialState (CHANGE ?p (VStr (ascii ''x'')))"
  have a: "heap_ok initialHeap" by (rule heap_ok_initialHeap)
  have b: "valid_path initialHeap (data initialState) (split_dot ?p)"
    by (simp add: split_account_email)
       (simp add: initialHeap_def initialState_def ascii_def get_prop_def obj_at_def)
  have c: "proto_key \<notin> set (split_dot ?p)"
    by (simp add: split_account_email) (simp add: proto_key_def ascii_def)
  have d: "?r = (fst ?r, snd ?r)" by simp
  note t = change_frame[OF a b c d]
  from t have 1: "lookup (fst ?r) (data (snd ?r)) (split_dot ?p) = VStr (ascii ''x'')" by blast
  from t have "\<forall>i<length (split_dot ?p). \<forall>k r. k \<noteq> split_dot ?p ! i \<longrightarrow>
          lookup (fst ?r) (data (snd ?r)) (take i (split_dot ?p) @ k # r)
            = lookup initialHeap (data initialState) (take i (split_dot ?p) @ k # r)" by blast
  from this[rule_format, of 0 "ascii ''company''" "[]"]
  have 2: "lookup (fst ?r) (data (snd ?r)) [ascii ''company''] = VRef 1"
    by (simp add: split_account_email)
       (simp add: initialHeap_def initialState_def ascii_def get_prop_def obj_at_def)
  from t have "\<forall>a<length initialHeap. fst ?r ! a = initialHeap ! a" by blast
  from this[rule_format, of 1] have 3: "fst ?r ! 1 = initialHeap ! 1"
    by (simp add: initialHeap_def)
  from a b c 1 2 3 show ?thesis by (simp only: split_account_email) simp
qed

lemma assign_same: "map_of ps k = Some v \<Longrightarrow> assign k v ps = ps"
  by (induction ps) (auto split: if_splits)

lemma map_of_keys: "map_of ps k = Some v \<Longrightarrow> k \<in> fst ` set ps"
  by (metis map_of_SomeD fst_conv image_eqI)

lemma heap_ok_iff:
  "heap_ok h \<longleftrightarrow> (\<forall>a<length h. \<forall>p\<in>set (h ! a). val_ok h (snd p))"
  unfolding heap_ok_def list_all_iff by (metis nth_mem in_set_conv_nth)

lemma val_ok_mono: "length h \<le> length H \<Longrightarrow> val_ok h w \<Longrightarrow> val_ok H w"
  by (cases w) auto

lemma heap_okD: "heap_ok h \<Longrightarrow> a < length h \<Longrightarrow> p \<in> set (h ! a) \<Longrightarrow> val_ok h (snd p)"
  unfolding heap_ok_iff by blast

lemma heap_ok_put_prop:
  assumes "heap_ok H" "val_ok H v"
  shows "heap_ok (put_prop H cur k v)"
  unfolding heap_ok_iff
proof (intro allI impI ballI)
  fix a p
  assume "a < length (put_prop H cur k v)" and p: "p \<in> set (put_prop H cur k v ! a)"
  then have a: "a < length H" by simp
  have "val_ok H (snd p)"
  proof (cases "a = cur")
    case True
    then have "p \<in> set (assign k v (H ! a))" using a p by (simp add: put_prop_def obj_at_def)
    then have "p = (k, v) \<or> p \<in> set (H ! a)" using set_assign by fastforce
    then show ?thesis using assms a by (auto dest: heap_okD)
  next
    case False
    then have "p \<in> set (H ! a)" using p by (simp add: put_prop_def)
    then show ?thesis using assms(1) a by (rule heap_okD[rotated 2])
  qed
  then show "val_ok (put_prop H cur k v) (snd p)"
    by (rule val_ok_mono[rotated]) simp
qed

lemma spread_ok:
  assumes "heap_ok H" "p \<in> set (spread H w)"
  shows "val_ok H (snd p)"
proof (cases w)
  case (VRef a)
  then have "a < length H" "p \<in> set (H ! a)"
    using assms(2) by (auto simp: obj_at_def split: if_splits)
  with assms(1) show ?thesis by (auto dest: heap_okD)
next
  case (VStr s)
  then show ?thesis using assms(2) by auto
qed (use assms(2) in auto)

lemma heap_ok_append:
  assumes "heap_ok H" "\<forall>p\<in>set ob. val_ok H (snd p)"
  shows "heap_ok (H @ [ob])"
  unfolding heap_ok_iff
proof (intro allI impI ballI)
  fix a p
  assume a: "a < length (H @ [ob])" and p: "p \<in> set ((H @ [ob]) ! a)"
  have "val_ok H (snd p)"
  proof (cases "a < length H")
    case True
    then have "p \<in> set (H ! a)" using p by (simp add: nth_append)
    then show ?thesis using assms(1) True by (rule heap_okD[rotated 2])
  next
    case False
    then have "a = length H" using a by simp
    then have "p \<in> set ob" using p by simp
    then show ?thesis using assms(2) by blast
  qed
  then show "val_ok (H @ [ob]) (snd p)" by (rule val_ok_mono[rotated]) simp
qed

lemma heap_ok_set_loop:
  "heap_ok H \<Longrightarrow> val_ok H v \<Longrightarrow> cur < length H \<Longrightarrow> heap_ok (set_loop H cur ks v)"
proof (induction H cur ks v rule: set_loop.induct)
  case (1 H cur v)
  then show ?case by (simp add: heap_ok_put_prop)
next
  case (2 H cur k v)
  then show ?case by (simp add: heap_ok_put_prop)
next
  case (3 H cur k0 k1 ks v)
  let ?H1 = "H @ [spread H (get_prop H cur k0)]"
  let ?H2 = "put_prop ?H1 cur k0 (VRef (length H))"
  have h1: "heap_ok ?H1" using 3(2) spread_ok[OF 3(2)] by (intro heap_ok_append) blast+
  have h2: "heap_ok ?H2" by (rule heap_ok_put_prop[OF h1]) simp
  have v2: "val_ok ?H2 v" by (rule val_ok_mono[OF _ 3(3)]) simp
  have "heap_ok (set_loop ?H2 (length H) (k1 # ks) v)"
    by (rule 3(1)[OF refl refl refl h2 v2]) simp
  then show ?case by (simp add: Let_def)
qed

lemma heap_ok_set_path:
  assumes "heap_ok h" "val_ok h v"
  shows "heap_ok (fst (set_path h ob p v))"
  unfolding fst_set_path
proof (intro heap_ok_set_loop)
  show "heap_ok (h @ [spread h ob])"
    using assms(1) spread_ok[OF assms(1)] by (intro heap_ok_append) blast+
  show "val_ok (h @ [spread h ob]) v"
    by (rule val_ok_mono[OF _ assms(2)]) simp
qed simp

lemma shape_at_extends: "extends h H \<Longrightarrow> val_ok h w \<Longrightarrow> shape_at H w = shape_at h w"
  by (cases w) (simp_all add: extends_obj_at)

lemma set_loop_holds:
  "cur < length H \<Longrightarrow> ks \<noteq> [] \<Longrightarrow> holds_at (set_loop H cur ks v) (VRef cur) ks v"
proof (induction H cur ks v rule: set_loop.induct)
  case (1 H cur v)
  then show ?case by simp
next
  case (2 H cur k v)
  then show ?case by (simp add: put_prop_def obj_at_def map_of_assign)
next
  case (3 H cur k0 k1 ks v)
  let ?fresh = "length H"
  let ?H2 = "put_prop (H @ [spread H (get_prop H cur k0)]) cur k0 (VRef ?fresh)"
  let ?H' = "set_loop ?H2 ?fresh (k1 # ks) v"
  have lcur: "cur < length ?H'" using 3 by (simp add: length_set_loop)
  have "?H' ! cur = ?H2 ! cur"
    using 3 by (intro set_loop_frame) simp_all
  then have "map_of (?H' ! cur) k0 = Some (VRef ?fresh)"
    using 3 by (simp add: put_prop_def obj_at_def nth_append map_of_assign)
  moreover have "holds_at ?H' (VRef ?fresh) (k1 # ks) v"
    using 3(1)[OF refl refl refl] by simp
  ultimately show ?case using lcur by (simp add: Let_def)
qed

lemma holds_at_RefD: "holds_at h (VRef a) ks v \<Longrightarrow> a < length h"
  by (cases "(h, VRef a, ks, v)" rule: holds_at.cases) auto

lemma set_loop_same:
  "heap_ok h \<Longrightarrow> extends h H \<Longrightarrow> length h \<le> cur \<Longrightarrow> cur < length H \<Longrightarrow>
   a0 < length h \<Longrightarrow> H ! cur = h ! a0 \<Longrightarrow> holds_at h (VRef a0) ks v \<Longrightarrow>
   shape_at (set_loop H cur ks v) (lookup (set_loop H cur ks v) (VRef cur) q)
     = shape_at h (lookup h (VRef a0) q)"
proof (induction H cur ks v arbitrary: a0 q rule: set_loop.induct)
  case (1 H cur v)
  then show ?case by simp
next
  case (2 H cur k0 v)
  let ?H' = "put_prop H cur k0 v"
  have ext: "extends h ?H'" using 2(1-6) by (simp add: extends_put_prop)
  have "?H' ! cur = assign k0 v (h ! a0)" using 2(1-6) by (simp add: put_prop_def obj_at_def)
  moreover have "map_of (h ! a0) k0 = Some v" using 2(7) by simp
  ultimately have cur: "?H' ! cur = h ! a0" by (simp add: assign_same)
  show ?case
  proof (cases q)
    case Nil
    then show ?thesis using 2(1-6) cur by (simp add: obj_at_def)
  next
    case (Cons k r)
    have "get_prop ?H' cur k = get_prop h a0 k"
      using 2(1-6) cur by (simp add: get_prop_def obj_at_def)
    moreover have "lookup ?H' (get_prop h a0 k) r = lookup h (get_prop h a0 k) r"
      using 2(1-6) ext by (intro lookup_extends) (simp_all add: heap_ok_get_prop)
    moreover have "shape_at ?H' (lookup h (get_prop h a0 k) r)
        = shape_at h (lookup h (get_prop h a0 k) r)"
      using 2(1-6) ext by (intro shape_at_extends lookup_ok) (simp_all add: heap_ok_get_prop)
    ultimately show ?thesis using Cons by simp
  qed
next
  case (3 H cur k0 k1 ks v)
  let ?fresh = "length H"
  let ?H1 = "H @ [spread H (get_prop H cur k0)]"
  let ?H2 = "put_prop ?H1 cur k0 (VRef ?fresh)"
  let ?H' = "set_loop ?H2 ?fresh (k1 # ks) v"
  from 3(8) obtain a1 where m: "map_of (h ! a0) k0 = Some (VRef a1)" and a1: "a1 < length h"
    and v1: "holds_at h (VRef a1) (k1 # ks) v"
  proof -
    from 3(8) obtain w where w: "map_of (h ! a0) k0 = Some w" "holds_at h w (k1 # ks) v"
      by (auto split: option.splits)
    then obtain a1 where "w = VRef a1" by (cases w) auto
    with w that show thesis by (auto dest: holds_at_RefD)
  qed
  have gp0: "get_prop h a0 k0 = VRef a1" using 3(2-7) m by (simp add: get_prop_def obj_at_def)
  have gp: "get_prop H cur k0 = VRef a1"
    using 3(2-7) m by (simp add: get_prop_def obj_at_def)
  have ext2: "extends h ?H2"
    using 3(2-7) by (intro extends_put_prop extends_trans[OF _ extends_append]) simp_all
  have ext': "extends h ?H'"
    using 3(2-7) ext2 by (intro extends_set_loop) simp_all
  have fresh: "?H2 ! ?fresh = h ! a1"
    using 3(2-7) a1 gp by (simp add: put_prop_def extends_obj_at) (simp add: obj_at_def)
  have cur2: "?H2 ! cur = assign k0 (VRef ?fresh) (h ! a0)"
    using 3(2-7) by (simp add: put_prop_def obj_at_def nth_append)
  have "?H' ! cur = ?H2 ! cur"
    using 3(2-7) by (intro set_loop_frame) simp_all
  then have cur': "?H' ! cur = assign k0 (VRef ?fresh) (h ! a0)" using cur2 by simp
  have lcur: "cur < length ?H'" using 3(2-7) by (simp add: length_set_loop)
  show ?case
  proof (cases q)
    case Nil
    have "obj_at ?H' cur = assign k0 (VRef ?fresh) (h ! a0)"
      using cur' lcur by (simp add: obj_at_def)
    moreover have "k0 \<in> fst ` set (h ! a0)" using m by (rule map_of_keys)
    ultimately show ?thesis using Nil 3(6) by (simp add: Let_def keys_assign obj_at_def)
  next
    case (Cons k r)
    show ?thesis
    proof (cases "k = k0")
      case True
      have "get_prop ?H' cur k0 = VRef ?fresh"
        using get_prop_assign[OF lcur cur', of k0] by simp
      moreover have "shape_at ?H' (lookup ?H' (VRef ?fresh) r) = shape_at h (lookup h (VRef a1) r)"
        using 3(2-) a1 v1 ext2 fresh
        by (intro 3(1)[OF refl refl refl]) simp_all
      ultimately show ?thesis using Cons True gp0 by (simp add: Let_def)
    next
      case False
      then have "get_prop ?H' cur k = get_prop h a0 k"
        using 3(2-7) get_prop_assign[OF lcur cur', of k] by (simp add: get_prop_def obj_at_def)
      moreover have "lookup ?H' (get_prop h a0 k) r = lookup h (get_prop h a0 k) r"
        using 3(2-7) ext' by (intro lookup_extends) (simp_all add: heap_ok_get_prop)
      moreover have "shape_at ?H' (lookup h (get_prop h a0 k) r)
          = shape_at h (lookup h (get_prop h a0 k) r)"
        using 3(2-7) ext' by (intro shape_at_extends lookup_ok) (simp_all add: heap_ok_get_prop)
      ultimately show ?thesis using Cons by (simp add: Let_def)
    qed
  qed
qed

lemma reducer_change:
  "reducer now h s (CHANGE p v) = (h', s') \<Longrightarrow>
   h' = fst (set_path h (data s) p v) \<and> s' = s\<lparr>data := VRef (length h), dirty := True\<rparr>"
  by (auto simp: set_path_def Let_def)

text \<open>
  Claim C4. In a closed store, for every state, every path with no \<open>__proto__\<close> segment
  (valid or not) and every value of the store, applying the same \<open>CHANGE\<close> a second time
  yields a state whose data has the same structure as after the first time, all other
  fields being equal.
\<close>

theorem change_idempotent:
  assumes "heap_ok h" and "val_ok h v" and "proto_key \<notin> set (split_dot p)"
    and "reducer now h s (CHANGE p v) = (h1, s1)"
    and "reducer now h1 s1 (CHANGE p v) = (h2, s2)"
  shows "same_structure h2 (data s2) h1 (data s1) \<and> s2 = s1\<lparr>data := data s2\<rparr>"
proof -
  let ?ks = "split_dot p"
  from reducer_change[OF assms(4)]
  have h1: "h1 = set_loop (h @ [spread h (data s)]) (length h) ?ks v"
    and s1: "s1 = s\<lparr>data := VRef (length h), dirty := True\<rparr>"
    by (simp_all add: fst_set_path)
  from reducer_change[OF assms(5)]
  have h2: "h2 = set_loop (h1 @ [spread h1 (data s1)]) (length h1) ?ks v"
    and s2: "s2 = s1\<lparr>data := VRef (length h1), dirty := True\<rparr>"
    by (simp_all add: fst_set_path)
  have ok1: "heap_ok h1"
    using heap_ok_set_path[OF assms(1,2), of "data s" p] by (simp add: h1 fst_set_path)
  have len1: "length h < length h1"
    using split_dot_nonempty[of p] by (cases ?ks) (simp_all add: h1 length_set_loop)
  have holds: "holds_at h1 (VRef (length h)) ?ks v"
    unfolding h1 by (rule set_loop_holds) (simp_all add: split_dot_nonempty)
  have sp: "spread h1 (data s1) = h1 ! length h"
    using len1 by (simp add: s1 obj_at_def)
  have "shape_at h2 (lookup h2 (VRef (length h1)) q) = shape_at h1 (lookup h1 (VRef (length h)) q)" for q
    unfolding h2 sp
    by (rule set_loop_same[OF ok1 extends_append _ _ len1 _ holds]) simp_all
  then have "same_structure h2 (data s2) h1 (data s1)"
    by (simp add: same_structure_def s1 s2)
  moreover have "s2 = s1\<lparr>data := data s2\<rparr>" by (simp add: s1 s2)
  ultimately show ?thesis by simp
qed

text \<open>Claim C4 on the initial state and the path \<open>account.email\<close>.\<close>

theorem change_idempotent_witness:
  "heap_ok initialHeap \<and> val_ok initialHeap (VStr (ascii ''x''))
   \<and> proto_key \<notin> set (split_dot (ascii ''account.email''))
   \<and> same_structure
        (fst (reducer [] (fst (reducer [] initialHeap initialState (CHANGE (ascii ''account.email'') (VStr (ascii ''x'')))))
                (snd (reducer [] initialHeap initialState (CHANGE (ascii ''account.email'') (VStr (ascii ''x'')))))
                (CHANGE (ascii ''account.email'') (VStr (ascii ''x'')))))
        (data (snd (reducer [] (fst (reducer [] initialHeap initialState (CHANGE (ascii ''account.email'') (VStr (ascii ''x'')))))
                (snd (reducer [] initialHeap initialState (CHANGE (ascii ''account.email'') (VStr (ascii ''x'')))))
                (CHANGE (ascii ''account.email'') (VStr (ascii ''x''))))))
        (fst (reducer [] initialHeap initialState (CHANGE (ascii ''account.email'') (VStr (ascii ''x'')))))
        (data (snd (reducer [] initialHeap initialState (CHANGE (ascii ''account.email'') (VStr (ascii ''x''))))))"
proof -
  let ?p = "ascii ''account.email''"
  let ?a = "CHANGE ?p (VStr (ascii ''x''))"
  let ?r1 = "reducer [] initialHeap initialState ?a"
  let ?r2 = "reducer [] (fst ?r1) (snd ?r1) ?a"
  have a: "heap_ok initialHeap" by (rule heap_ok_initialHeap)
  have b: "val_ok initialHeap (VStr (ascii ''x''))" by simp
  have c: "proto_key \<notin> set (split_dot ?p)"
    by (simp add: split_account_email) (simp add: proto_key_def ascii_def)
  have d1: "?r1 = (fst ?r1, snd ?r1)" by simp
  have d2: "?r2 = (fst ?r2, snd ?r2)" by simp
  from change_idempotent[OF a b c d1 d2] a b c show ?thesis by blast
qed

section \<open>Properties of the save routine\<close>

lemma saveDraft_state:
  "saveDraft e opts c (h, s, st) =
     (h,
      (case snd (try_save e h c st) of
         Returned u \<Rightarrow> s\<lparr>saving := False, error := None, savedAt := Some (clock e), dirty := False\<rparr>
       | Threw m \<Rightarrow> s\<lparr>saving := False, error := Some (error_message m),
                        dirty := (if opts = Some Manual then False else dirty s)\<rparr>),
      fst (try_save e h c st))"
  by (cases "try_save e h c st"; cases "snd (try_save e h c st)")
     (simp_all add: saveDraft_def Let_def)

lemma try_save_written:
  "stringify_state h c = Some doc \<Longrightarrow> setItem_throws e = None \<Longrightarrow>
   try_save e h c st = (Item doc, fakeSaveToServer (random e))"
  by (simp add: try_save_def)

lemma p_dirty_parse_stored: "p_dirty (snd (parse_stored h q)) = q_dirty q"
  by (simp add: parse_stored_def split: option.splits prod.splits)

lemma p_currentIndex_parse_stored: "p_currentIndex (snd (parse_stored h q)) = q_currentIndex q"
  by (simp add: parse_stored_def split: option.splits prod.splits)

lemma launch_Item_dirty:
  "dirty (fst (snd (launch now (Item q)))) = (case q_dirty q of None \<Rightarrow> False | Some b \<Rightarrow> b)"
  using p_dirty_parse_stored[of initialHeap q]
  by (cases "parse_stored initialHeap q")
     (simp add: launch_def Let_def initialState_def split: option.splits)

lemma stringify_dirtyState: "stringify_state initialHeap dirtyState = Some initialDoc"
  by (simp add: stringify_state_def stringify_def initialHeap_def dirtyState_def initialState_def
      initialDoc_def obj_at_def)

lemma try_save_up: "try_save env_up initialHeap dirtyState NoItem = (Item initialDoc, Returned ())"
  by (simp add: try_save_def stringify_dirtyState env_up_def fakeSaveToServer_def)

lemma try_save_down:
  "try_save env_down initialHeap dirtyState NoItem = (Item initialDoc, Threw (Some msg_network))"
  by (simp add: try_save_def stringify_dirtyState env_down_def fakeSaveToServer_def)

text \<open>
  Claim C1, as the code has it. Every \<open>CHANGE\<close> yields a dirty state. A step of the
  reducer takes \<open>dirty\<close> from true to false only for \<open>SET_SAVED_AT\<close>, for
  \<open>SET_DIRTY false\<close>, or for \<open>HYDRATE\<close> with a snapshot whose \<open>dirty\<close> is false. The save
  routine, started on a dirty state, leaves it dirty exactly when the save is not a
  manual one and its \<open>try\<close> block throws: every successful save, automatic ones
  included, and every manual save, failed ones included, clear \<open>dirty\<close>.
\<close>

theorem dirty_cleared_by:
  "dirty (snd (reducer now h s (CHANGE p v)))
   \<and> (dirty s \<and> \<not> dirty (snd (reducer now h s a)) \<longrightarrow>
        (\<exists>t. a = SET_SAVED_AT t) \<or> a = SET_DIRTY False
        \<or> (\<exists>ps. a = HYDRATE ps \<and> p_dirty ps = Some False))
   \<and> dirty (fst (snd (saveDraft e opts c (h, s, st))))
        = (dirty s \<and> opts \<noteq> Some Manual \<and> snd (try_save e h c st) \<noteq> Returned ())"
proof -
  have 1: "dirty (snd (reducer now h s (CHANGE p v)))"
    by (simp add: Let_def split: prod.splits)
  have 2: "dirty s \<and> \<not> dirty (snd (reducer now h s a)) \<longrightarrow>
        (\<exists>t. a = SET_SAVED_AT t) \<or> a = SET_DIRTY False
        \<or> (\<exists>ps. a = HYDRATE ps \<and> p_dirty ps = Some False)"
    by (cases a) (auto simp: Let_def split: prod.splits option.splits)
  have 3: "dirty (fst (snd (saveDraft e opts c (h, s, st))))
        = (dirty s \<and> opts \<noteq> Some Manual \<and> snd (try_save e h c st) \<noteq> Returned ())"
    by (cases "snd (try_save e h c st)") (auto simp: saveDraft_state)
  from 1 2 3 show ?thesis by blast
qed

text \<open>
  Claim C1 on the dirty state: \<open>SET_SAVED_AT\<close> clears \<open>dirty\<close>, \<open>GOTO\<close> keeps it, and
  an automatic save whose server call fails keeps it.
\<close>

theorem dirty_cleared_by_witness:
  "dirty dirtyState
   \<and> \<not> dirty (snd (reducer [] initialHeap dirtyState (SET_SAVED_AT None)))
   \<and> dirty (snd (reducer [] initialHeap dirtyState (GOTO 1)))
   \<and> dirty (fst (snd (saveDraft env_down (Some Auto) dirtyState (initialHeap, dirtyState, NoItem))))"
proof -
  have a: "dirty dirtyState" by (simp add: dirtyState_def)
  from dirty_cleared_by[of "[]" initialHeap dirtyState "[]" VNull "GOTO 1"
      env_down "Some Auto" dirtyState NoItem] a
  show ?thesis by (simp add: try_save_down)
qed

text \<open>
  Claim C1 as it is worded fails: on the dirty state, an automatic save that succeeds
  ends with \<open>dirty\<close> false, and so does a manual save whose server call fails.
\<close>

theorem dirty_only_manual_success_counterexample:
  "dirty dirtyState
   \<and> snd (try_save env_up initialHeap dirtyState NoItem) = Returned ()
   \<and> \<not> dirty (fst (snd (saveDraft env_up (Some Auto) dirtyState (initialHeap, dirtyState, NoItem))))
   \<and> snd (try_save env_down initialHeap dirtyState NoItem) = Threw (Some msg_network)
   \<and> \<not> dirty (fst (snd (saveDraft env_down (Some Manual) dirtyState (initialHeap, dirtyState, NoItem))))"
  by (simp add: saveDraft_state try_save_up try_save_down) (simp add: dirtyState_def)

text \<open>
  Claim C2. For every dirty state, when the state of the closure can be serialised
  and \<open>setItem\<close> does not throw, a manual save whose server call fails ends with
  \<open>dirty\<close> false, \<open>error\<close> the message of the failure, \<open>saving\<close> false and the snapshot
  in storage; the other fields and the store are as before.
\<close>

theorem manual_save_remote_failure:
  assumes "dirty s" and "stringify_state h c = Some doc" and "setItem_throws e = None"
    and "random e < 5 / 100"
    and "saveDraft e (Some Manual) c (h, s, st) = (h', s', st')"
  shows "dirty s' = False \<and> error s' = Some msg_network \<and> saving s' = False \<and> st' = Item doc
    \<and> currentIndex s' = currentIndex s \<and> savedAt s' = savedAt s \<and> data s' = data s \<and> h' = h"
  using assms
  by (auto simp: saveDraft_state try_save_written fakeSaveToServer_def error_message_def msg_network_def)

text \<open>Claim C2 on the dirty state, with the server stub failing.\<close>

theorem manual_save_remote_failure_witness:
  "dirty dirtyState \<and> stringify_state initialHeap dirtyState = Some initialDoc
   \<and> setItem_throws env_down = None \<and> random env_down < 5 / 100
   \<and> saveDraft env_down (Some Manual) dirtyState (initialHeap, dirtyState, NoItem)
       = (initialHeap,
          dirtyState\<lparr>dirty := False, error := Some msg_network, saving := False\<rparr>,
          Item initialDoc)"
proof -
  let ?w = "saveDraft env_down (Some Manual) dirtyState (initialHeap, dirtyState, NoItem)"
  have a: "dirty dirtyState" by (simp add: dirtyState_def)
  have b: "setItem_throws env_down = None" by (simp add: env_down_def)
  have c: "random env_down < 5 / 100" by (simp add: env_down_def)
  have d: "?w = (fst ?w, fst (snd ?w), snd (snd ?w))" by simp
  from manual_save_remote_failure[OF a stringify_dirtyState b c d]
  have "fst (snd ?w) = dirtyState\<lparr>dirty := False, error := Some msg_network, saving := False\<rparr>"
    and "fst ?w = initialHeap" and "snd (snd ?w) = Item initialDoc"
    by simp_all
  then have "?w = (initialHeap,
      dirtyState\<lparr>dirty := False, error := Some msg_network, saving := False\<rparr>, Item initialDoc)"
    using d by simp
  with a b c stringify_dirtyState show ?thesis by simp
qed

text \<open>
  Claim C10. A save started by a closure whose state is dirty, manual or automatic,
  stores the snapshot of that state whenever it can be serialised and \<open>setItem\<close> does
  not throw: the snapshot has \<open>dirty\<close> true and the \<open>saving\<close>, \<open>error\<close> and
  \<open>currentIndex\<close> of the closure, whatever the server answers. When the server call
  succeeds the live state ends clean, and still a launch that hydrates from the
  storage starts dirty.
\<close>

theorem snapshot_keeps_dirty:
  assumes "dirty c" and "stringify_state h c = Some doc" and "setItem_throws e = None"
    and "saveDraft e opts c (h, s, st) = (h', s', st')"
  shows "st' = Item doc \<and> q_dirty doc = Some True \<and> q_saving doc = Some (saving c)
    \<and> q_error doc = Some (error c) \<and> q_currentIndex doc = Some (currentIndex c)
    \<and> (\<not> random e < 5 / 100 \<longrightarrow> \<not> dirty s')
    \<and> dirty (fst (snd (launch now st')))"
proof -
  have st': "st' = Item doc"
    using assms by (simp add: saveDraft_state try_save_written)
  have doc: "q_dirty doc = Some True \<and> q_saving doc = Some (saving c)
    \<and> q_error doc = Some (error c) \<and> q_currentIndex doc = Some (currentIndex c)"
    using assms(1,2) by (auto simp: stringify_state_def split: ser.splits)
  have "\<not> random e < 5 / 100 \<longrightarrow> \<not> dirty s'"
    using assms by (auto simp: saveDraft_state try_save_written fakeSaveToServer_def)
  moreover have "dirty (fst (snd (launch now st')))"
    using doc by (simp add: st' launch_Item_dirty)
  ultimately show ?thesis using st' doc by simp
qed

text \<open>Claim C10 on the dirty state, with an automatic save that succeeds.\<close>

theorem snapshot_keeps_dirty_witness:
  "dirty dirtyState \<and> stringify_state initialHeap dirtyState = Some initialDoc
   \<and> setItem_throws env_up = None
   \<and> snd (snd (saveDraft env_up (Some Auto) dirtyState (initialHeap, dirtyState, NoItem)))
       = Item initialDoc
   \<and> q_dirty initialDoc = Some True
   \<and> \<not> dirty (fst (snd (saveDraft env_up (Some Auto) dirtyState (initialHeap, dirtyState, NoItem))))
   \<and> dirty (fst (snd (launch []
        (snd (snd (saveDraft env_up (Some Auto) dirtyState (initialHeap, dirtyState, NoItem)))))))"
proof -
  let ?w = "saveDraft env_up (Some Auto) dirtyState (initialHeap, dirtyState, NoItem)"
  have a: "dirty dirtyState" by (simp add: dirtyState_def)
  have b: "setItem_throws env_up = None" by (simp add: env_up_def)
  have c: "\<not> random env_up < 5 / 100" by (simp add: env_up_def)
  have d: "?w = (fst ?w, fst (snd ?w), snd (snd ?w))" by simp
  note t = snapshot_keeps_dirty[OF a stringify_dirtyState b d, of "[]"]
  from t have 1: "snd (snd ?w) = Item initialDoc" by blast
  from t have 2: "q_dirty initialDoc = Some True" by blast
  from t c have 3: "\<not> dirty (fst (snd ?w))" by blast
  from t have 4: "dirty (fst (snd (launch [] (snd (snd ?w)))))" by blast
  from a stringify_dirtyState b 1 2 3 4 show ?thesis by blast
qed

section \<open>Properties of validation and of save-and-continue\<close>

lemma STEPS_keys:
  "map fst STEPS = [ascii ''account'', ascii ''company'', ascii ''members'', ascii ''docs'', ascii ''review'']"
  by (simp add: STEPS_def)

lemma length_STEPS: "length STEPS = 5"
  by (simp add: STEPS_def)

lemma validate_account:
  assumes "currentIndex c = 0" and "data c = VRef d"
    and "get_prop h d (ascii ''account'') = VRef a"
    and "get_prop h a (ascii ''email'') = VStr email"
    and "get_prop h a (ascii ''password'') = VStr password"
  shows "validateCurrent h c =
     Inr (if email = [] then Some msg_email_required
          else if \<not> email_format email then Some msg_email_format
          else if length password < 8 then Some msg_password
          else None)"
proof -
  have key: "fst (STEPS ! nat (currentIndex c)) = ascii ''account''"
    using assms(1) by (simp add: STEPS_def)
  have e: "read_field h (data c) ''account'' ''email'' = Inr (VStr email)"
    using assms by (simp add: read_field_def and_then_def)
  have p: "read_field h (data c) ''account'' ''password'' = Inr (VStr password)"
    using assms by (simp add: read_field_def and_then_def)
  show ?thesis
    unfolding validateCurrent_def Let_def key e p
    using assms(1) by (simp add: and_then_def length_STEPS)
qed

lemma email_format_iff:
  "email_format s \<longleftrightarrow>
     (\<exists>l b c. s = l @ 64 # b @ 46 # c \<and> l \<noteq> [] \<and> b \<noteq> [] \<and> c \<noteq> []
        \<and> (\<forall>x\<in>set (l @ b @ c). plain_char x))"
proof
  assume "email_format s"
  then obtain i j where ij: "i < length s" "j < length s" "0 < i" "i + 1 < j" "j + 1 < length s"
      "s ! i = 64" "s ! j = 46"
    and pl: "\<forall>k<length s. k = i \<or> k = j \<or> plain_char (s ! k)"
    by (auto simp: email_format_def list_ex_iff list_all_iff)
  let ?l = "take i s" and ?r = "drop (Suc i) s"
  let ?b = "take (j - Suc i) ?r" and ?c = "drop (Suc (j - Suc i)) ?r"
  have s1: "s = ?l @ s ! i # ?r" using ij(1) by (rule id_take_nth_drop)
  have jr: "j - Suc i < length ?r" using ij by simp
  have rj: "?r ! (j - Suc i) = s ! j" using ij by simp
  have r1: "?r = ?b @ s ! j # ?c"
    using id_take_nth_drop[OF jr] rj by simp
  have s2: "s = ?l @ 64 # ?b @ 46 # ?c"
    using s1 r1 ij(6,7) by metis
  have ne: "?l \<noteq> []" "?b \<noteq> []" "?c \<noteq> []" using ij by auto
  have "plain_char x" if "x \<in> set (?l @ ?b @ ?c)" for x
  proof -
    from that consider "x \<in> set ?l" | "x \<in> set ?b" | "x \<in> set ?c" by auto
    then show ?thesis
    proof cases
      case 1
      then obtain k where "k < length ?l" "?l ! k = x" by (metis in_set_conv_nth)
      then have k: "k < i" "x = s ! k" using ij(1) by simp_all
      then have "k < length s" "k \<noteq> i" "k \<noteq> j" using ij by auto
      then show ?thesis using pl k by blast
    next
      case 2
      then obtain k where "k < length ?b" "?b ! k = x" by (metis in_set_conv_nth)
      then have k: "k < j - Suc i" "x = ?r ! k" using jr by simp_all
      then have "x = s ! (Suc i + k)" using ij by simp
      moreover have "Suc i + k < length s" "Suc i + k \<noteq> i" "Suc i + k \<noteq> j" using k ij by auto
      ultimately show ?thesis using pl by blast
    next
      case 3
      then obtain k where k: "k < length ?c" "?c ! k = x" by (metis in_set_conv_nth)
      then have "x = s ! (Suc j + k)" using ij by (simp add: add.commute add.left_commute)
      moreover have "Suc j + k < length s" "Suc j + k \<noteq> i" "Suc j + k \<noteq> j" using k ij by auto
      ultimately show ?thesis using pl by blast
    qed
  qed
  with s2 ne show "\<exists>l b c. s = l @ 64 # b @ 46 # c \<and> l \<noteq> [] \<and> b \<noteq> [] \<and> c \<noteq> []
        \<and> (\<forall>x\<in>set (l @ b @ c). plain_char x)"
    by blast
next
  assume "\<exists>l b c. s = l @ 64 # b @ 46 # c \<and> l \<noteq> [] \<and> b \<noteq> [] \<and> c \<noteq> []
        \<and> (\<forall>x\<in>set (l @ b @ c). plain_char x)"
  then obtain l b c where s: "s = l @ 64 # b @ 46 # c" and ne: "l \<noteq> []" "b \<noteq> []" "c \<noteq> []"
    and pl: "\<forall>x\<in>set (l @ b @ c). plain_char x"
    by blast
  let ?i = "length l" and ?j = "length l + Suc (length b)"
  have len: "length s = length l + length b + length c + 2" using s by simp
  have 1: "?i < length s" "?j < length s" "0 < ?i" "?i + 1 < ?j" "?j + 1 < length s"
    using ne len by auto
  have 2: "s ! ?i = 64" using s by simp
  have 3: "s ! ?j = 46" using s by (simp add: nth_append nth_Cons')
  have 4: "k = ?i \<or> k = ?j \<or> plain_char (s ! k)" if "k < length s" for k
  proof (cases "k < ?i")
    case True
    then show ?thesis using pl s by (simp add: nth_append)
  next
    case False
    show ?thesis
    proof (cases "k = ?i \<or> k = ?j")
      case True
      then show ?thesis by blast
    next
      case F2: False
      show ?thesis
      proof (cases "k < ?j")
        case True
        then have "s ! k = b ! (k - Suc ?i)" "k - Suc ?i < length b"
          using False F2 s by (auto simp: nth_append nth_Cons')
        then show ?thesis using pl by (metis UnCI nth_mem set_append)
      next
        case F3: False
        then have "s ! k = c ! (k - Suc ?j)" "k - Suc ?j < length c"
          using False F2 s that len by (auto simp: nth_append nth_Cons')
        then show ?thesis using pl by (metis UnCI nth_mem set_append)
      qed
    qed
  qed
  show "email_format s"
    unfolding email_format_def list_ex_iff list_all_iff
    using 1 2 3 4 by (intro bexI[of _ ?i] bexI[of _ ?j] conjI ballI) auto
qed

lemma account_store_props:
  "data initialState = VRef 5"
  "get_prop (account_store e p) 5 (ascii ''account'') = VRef 0"
  "get_prop (account_store e p) 0 (ascii ''email'') = VStr e"
  "get_prop (account_store e p) 0 (ascii ''password'') = VStr p"
  by (simp_all add: account_store_def initialHeap_def initialState_def get_prop_def obj_at_def ascii_def)

lemma email_not_an_email: "\<not> email_format (ascii ''not-an-email'')"
  by code_simp

lemma email_a_b_com: "email_format (ascii ''a@b.com'')"
  by code_simp

lemma msgs_nonempty:
  "msg_email_required \<noteq> []" "msg_email_format \<noteq> []" "msg_password \<noteq> []" "msg_nameJa \<noteq> []"
  "msg_address \<noteq> []" "msg_ceo \<noteq> []" "msg_hanko \<noteq> []" "msg_agree \<noteq> []"
  by (simp_all add: msg_email_required_def msg_email_format_def msg_password_def msg_nameJa_def
      msg_address_def msg_ceo_def msg_hanko_def msg_agree_def)

lemma and_then_Some:
  "and_then r f = Inr (Some m) \<Longrightarrow> \<exists>x. r = Inr x \<and> f x = Inr (Some m)"
  by (cases r) (simp_all add: and_then_def)

lemma validateCurrent_nonempty:
  assumes "validateCurrent h c = Inr (Some m)"
  shows "m \<noteq> []"
proof -
  let ?s = "data c"
  let ?key = "fst (STEPS ! nat (currentIndex c))"
  have account: "m \<noteq> []"
    if "and_then (read_field h ?s ''account'' ''email'') (\<lambda>email.
            if \<not> truthy email then Inr (Some msg_email_required)
            else and_then (regex_test email) (\<lambda>ok.
              if \<not> ok then Inr (Some msg_email_format)
              else and_then (read_field h ?s ''account'' ''password'') (\<lambda>password.
                and_then (length_below_8 password) (\<lambda>short.
                  if short then Inr (Some msg_password) else Inr None)))) = Inr (Some m)"
  proof -
    from and_then_Some[OF that] obtain email where
      1: "(if \<not> truthy email then Inr (Some msg_email_required)
            else and_then (regex_test email) (\<lambda>ok.
              if \<not> ok then Inr (Some msg_email_format)
              else and_then (read_field h ?s ''account'' ''password'') (\<lambda>password.
                and_then (length_below_8 password) (\<lambda>short.
                  if short then Inr (Some msg_password) else Inr None)))) = Inr (Some m)"
      by blast
    show ?thesis
    proof (cases "truthy email")
      case False
      with 1 msgs_nonempty show ?thesis by auto
    next
      case True
      with 1 have "and_then (regex_test email) (\<lambda>ok.
              if \<not> ok then Inr (Some msg_email_format)
              else and_then (read_field h ?s ''account'' ''password'') (\<lambda>password.
                and_then (length_below_8 password) (\<lambda>short.
                  if short then Inr (Some msg_password) else Inr None))) = Inr (Some m)"
        by simp
      from and_then_Some[OF this] obtain ok where
        2: "(if \<not> ok then Inr (Some msg_email_format)
              else and_then (read_field h ?s ''account'' ''password'') (\<lambda>password.
                and_then (length_below_8 password) (\<lambda>short.
                  if short then Inr (Some msg_password) else Inr None))) = Inr (Some m)"
        by blast
      show ?thesis
      proof (cases ok)
        case False
        with 2 msgs_nonempty show ?thesis by auto
      next
        case True
        with 2 have "and_then (read_field h ?s ''account'' ''password'') (\<lambda>password.
                and_then (length_below_8 password) (\<lambda>short.
                  if short then Inr (Some msg_password) else Inr None)) = Inr (Some m)"
          by simp
        from and_then_Some[OF this] obtain password where
          "and_then (length_below_8 password) (\<lambda>short.
                  if short then Inr (Some msg_password) else Inr None) = Inr (Some m)"
          by blast
        from and_then_Some[OF this] msgs_nonempty show ?thesis
          by (auto split: if_splits)
      qed
    qed
  qed
  have company: "m \<noteq> []"
    if "and_then (read_field h ?s ''company'' ''nameJa'') (\<lambda>nameJa.
            if \<not> truthy nameJa then Inr (Some msg_nameJa)
            else and_then (read_field h ?s ''company'' ''address'') (\<lambda>address.
              if \<not> truthy address then Inr (Some msg_address) else Inr None)) = Inr (Some m)"
  proof -
    from and_then_Some[OF that] obtain nameJa where
      1: "(if \<not> truthy nameJa then Inr (Some msg_nameJa)
            else and_then (read_field h ?s ''company'' ''address'') (\<lambda>address.
              if \<not> truthy address then Inr (Some msg_address) else Inr None)) = Inr (Some m)"
      by blast
    show ?thesis
    proof (cases "truthy nameJa")
      case False
      with 1 msgs_nonempty show ?thesis by auto
    next
      case True
      with 1 have "and_then (read_field h ?s ''company'' ''address'') (\<lambda>address.
              if \<not> truthy address then Inr (Some msg_address) else Inr None) = Inr (Some m)"
        by simp
      from and_then_Some[OF this] msgs_nonempty show ?thesis
        by (auto split: if_splits)
    qed
  qed
  have single: "m \<noteq> []"
    if "and_then r (\<lambda>x. if \<not> truthy x then Inr (Some msg) else Inr None) = Inr (Some m)"
      and "msg \<noteq> []" for r msg
  proof -
    from and_then_Some[OF that(1)] that(2) show ?thesis
      by (auto split: if_splits)
  qed
  from assms show ?thesis
    unfolding validateCurrent_def Let_def
    by (auto split: if_splits dest!: account company single[OF _ msgs_nonempty(6)]
        single[OF _ msgs_nonempty(7)] single[OF _ msgs_nonempty(8)])
qed

lemma validateCurrent_index:
  "validateCurrent h c = Inr r \<Longrightarrow> 0 \<le> currentIndex c \<and> currentIndex c < 5"
  by (auto simp: validateCurrent_def length_STEPS split: if_splits)

lemma saveDraft_currentIndex:
  "currentIndex (fst (snd (saveDraft e opts c (h, s, st)))) = currentIndex s"
  by (cases "snd (try_save e h c st)") (simp_all add: saveDraft_state)

lemma validate_initial: "validateCurrent initialHeap initialState = Inr (Some msg_email_required)"
  using validate_account[of initialState 5 initialHeap 0 "[]" "[]"]
  by (simp add: initialHeap_def initialState_def get_prop_def obj_at_def ascii_def)

lemma validate_filled:
  "validateCurrent (account_store (ascii ''a@b.com'') (ascii ''12345678'')) initialState = Inr None"
proof -
  have i0: "currentIndex initialState = 0" by (simp add: initialState_def)
  from validate_account[OF i0 account_store_props, of "ascii ''a@b.com''" "ascii ''12345678''"]
    email_a_b_com
  show ?thesis by (simp add: ascii_def)
qed

text \<open>
  Claim C6. On the account step, with a string for the email and for the password,
  validation checks that the email is not empty, then its format, then that the
  password has at least 8 code units, and returns the message of the first rule that
  fails, or no error. The format holds exactly when the email is a non-empty part,
  an \<open>@\<close>, a non-empty part, a dot and a non-empty part, the three parts without
  \<open>@\<close> or white space: one \<open>@\<close>, and a dot inside the domain. For the email
  \<open>not-an-email\<close> with the password \<open>longenough1\<close> the result is the message of the
  format, for \<open>a@b.com\<close> with \<open>1234567\<close> the message of the password; the three
  messages differ.
\<close>

theorem validate_account_order:
  assumes "currentIndex c = 0" and "data c = VRef d"
    and "get_prop h d (ascii ''account'') = VRef a"
    and "get_prop h a (ascii ''email'') = VStr email"
    and "get_prop h a (ascii ''password'') = VStr password"
  shows "validateCurrent h c =
       Inr (if email = [] then Some msg_email_required
            else if \<not> email_format email then Some msg_email_format
            else if length password < 8 then Some msg_password
            else None)
    \<and> (email_format email \<longleftrightarrow>
         (\<exists>l b t. email = l @ 64 # b @ 46 # t \<and> l \<noteq> [] \<and> b \<noteq> [] \<and> t \<noteq> []
            \<and> (\<forall>x\<in>set (l @ b @ t). x \<noteq> 64 \<and> \<not> is_space x)))
    \<and> validateCurrent (account_store (ascii ''not-an-email'') (ascii ''longenough1'')) initialState
         = Inr (Some msg_email_format)
    \<and> validateCurrent (account_store (ascii ''a@b.com'') (ascii ''1234567'')) initialState
         = Inr (Some msg_password)
    \<and> distinct [msg_email_required, msg_email_format, msg_password]"
proof -
  have i0: "currentIndex initialState = 0" by (simp add: initialState_def)
  have 1: "validateCurrent h c =
       Inr (if email = [] then Some msg_email_required
            else if \<not> email_format email then Some msg_email_format
            else if length password < 8 then Some msg_password
            else None)"
    using assms by (rule validate_account)
  have 2: "email_format email \<longleftrightarrow>
         (\<exists>l b t. email = l @ 64 # b @ 46 # t \<and> l \<noteq> [] \<and> b \<noteq> [] \<and> t \<noteq> []
            \<and> (\<forall>x\<in>set (l @ b @ t). x \<noteq> 64 \<and> \<not> is_space x))"
    unfolding email_format_iff plain_char_def ..
  have 3: "validateCurrent (account_store (ascii ''not-an-email'') (ascii ''longenough1'')) initialState
         = Inr (Some msg_email_format)"
    using validate_account[OF i0 account_store_props, of "ascii ''not-an-email''" "ascii ''longenough1''"]
      email_not_an_email
    by (simp add: ascii_def)
  have 4: "validateCurrent (account_store (ascii ''a@b.com'') (ascii ''1234567'')) initialState
         = Inr (Some msg_password)"
    using validate_account[OF i0 account_store_props, of "ascii ''a@b.com''" "ascii ''1234567''"]
      email_a_b_com
    by (simp add: ascii_def)
  have 5: "distinct [msg_email_required, msg_email_format, msg_password]"
    by (simp add: msg_email_required_def msg_email_format_def msg_password_def)
  from 1 2 3 4 5 show ?thesis by blast
qed

text \<open>Claim C6 on \<open>a@b.com\<close> with a password of 8 code units: every rule passes.\<close>

theorem validate_account_order_witness:
  "currentIndex initialState = 0 \<and> data initialState = VRef 5
   \<and> get_prop (account_store (ascii ''a@b.com'') (ascii ''12345678'')) 5 (ascii ''account'') = VRef 0
   \<and> get_prop (account_store (ascii ''a@b.com'') (ascii ''12345678'')) 0 (ascii ''email'')
       = VStr (ascii ''a@b.com'')
   \<and> get_prop (account_store (ascii ''a@b.com'') (ascii ''12345678'')) 0 (ascii ''password'')
       = VStr (ascii ''12345678'')
   \<and> validateCurrent (account_store (ascii ''a@b.com'') (ascii ''12345678'')) initialState = Inr None"
proof -
  have i0: "currentIndex initialState = 0" by (simp add: initialState_def)
  note t = validate_account_order[OF i0 account_store_props,
      of "ascii ''a@b.com''" "ascii ''12345678''"]
  from t have "validateCurrent (account_store (ascii ''a@b.com'') (ascii ''12345678'')) initialState
      = Inr (if ascii ''a@b.com'' = [] then Some msg_email_required
            else if \<not> email_format (ascii ''a@b.com'') then Some msg_email_format
            else if length (ascii ''12345678'') < 8 then Some msg_password
            else None)"
    by blast
  then have "validateCurrent (account_store (ascii ''a@b.com'') (ascii ''12345678'')) initialState
      = Inr None"
    using email_a_b_com by (simp add: ascii_def)
  with i0 show ?thesis by (simp add: account_store_props)
qed

lemma validated_Inr: "validateCurrent h c = Inr r \<Longrightarrow> validated h c g = Inr r"
  by (simp add: validated_def)

lemma validated_index:
  assumes "validated h c g = Inr r"
  shows "0 \<le> currentIndex c \<and> currentIndex c < 5"
proof (cases "currentIndex c < 0 \<or> 5 \<le> currentIndex c")
  case True
  then have "validateCurrent h c = Inl TypeError"
    by (simp add: validateCurrent_def length_STEPS)
  with assms show ?thesis by (simp add: validated_def)
next
  case False
  then show ?thesis by simp
qed

lemma handleSaveAndContinue_message:
  assumes "validated h s g = Inr (Some m)" "m \<noteq> []"
  shows "handleSaveAndContinue e g s (h, s, st) = (h, s\<lparr>error := Some m\<rparr>, st)"
  using assms by (simp add: handleSaveAndContinue_def)

lemma handleSaveAndContinue_valid:
  assumes "validated h s g = Inr None"
  shows "handleSaveAndContinue e g s (h, s, st) =
          (fst (saveDraft e (Some Manual) s (h, s, st)),
           (if currentIndex s < 4
            then (fst (snd (saveDraft e (Some Manual) s (h, s, st))))
                   \<lparr>currentIndex := currentIndex s + 1, error := None\<rparr>
            else fst (snd (saveDraft e (Some Manual) s (h, s, st)))),
           snd (snd (saveDraft e (Some Manual) s (h, s, st))))"
  using assms
  by (simp add: handleSaveAndContinue_def next_step_def length_STEPS split: prod.splits)

lemma try_save_cases:
  "try_save e h s st =
     (case stringify_state h s of
        None \<Rightarrow> (st, Threw (cyclic_message e))
      | Some doc \<Rightarrow>
          (case setItem_throws e of
             Some m \<Rightarrow> (st, Threw m)
           | None \<Rightarrow> (Item doc, fakeSaveToServer (random e))))"
  by (simp add: try_save_def)

lemma manual_save_effects:
  "fst (saveDraft e (Some Manual) s (h, s, st)) = h"
  "data (fst (snd (saveDraft e (Some Manual) s (h, s, st)))) = data s"
  "saving (fst (snd (saveDraft e (Some Manual) s (h, s, st)))) = False"
  "dirty (fst (snd (saveDraft e (Some Manual) s (h, s, st)))) = False"
  by (cases "snd (try_save e h s st)"; simp add: saveDraft_state)+

lemma manual_save_written:
  assumes "stringify_state h s = Some doc" "setItem_throws e = None"
  shows "snd (snd (saveDraft e (Some Manual) s (h, s, st))) = Item doc"
    and "\<not> random e < 5 / 100 \<Longrightarrow>
         savedAt (fst (snd (saveDraft e (Some Manual) s (h, s, st)))) = Some (clock e)
         \<and> error (fst (snd (saveDraft e (Some Manual) s (h, s, st)))) = None"
    and "random e < 5 / 100 \<Longrightarrow>
         savedAt (fst (snd (saveDraft e (Some Manual) s (h, s, st)))) = savedAt s
         \<and> error (fst (snd (saveDraft e (Some Manual) s (h, s, st)))) = Some msg_network"
  using assms
  by (simp_all add: saveDraft_state try_save_cases fakeSaveToServer_def error_message_def
      msg_network_def)

lemma manual_save_not_written:
  assumes "stringify_state h s = None \<or> setItem_throws e \<noteq> None"
  shows "snd (snd (saveDraft e (Some Manual) s (h, s, st))) = st"
    and "savedAt (fst (snd (saveDraft e (Some Manual) s (h, s, st)))) = savedAt s"
  using assms
  by (auto simp: saveDraft_state try_save_cases split: option.splits)

lemma stringify_filled:
  "stringify_state (account_store (ascii ''a@b.com'') (ascii ''12345678'')) dirtyState = Some filledDoc"
  by (simp add: stringify_state_def stringify_def account_store_def initialHeap_def dirtyState_def
      initialState_def filledDoc_def obj_at_def)

lemma validate_filled_dirty:
  "validateCurrent (account_store (ascii ''a@b.com'') (ascii ''12345678'')) dirtyState = Inr None"
proof -
  have i0: "currentIndex dirtyState = 0" by (simp add: dirtyState_def initialState_def)
  have d: "data dirtyState = VRef 5" by (simp add: dirtyState_def initialState_def)
  from validate_account[OF i0 d account_store_props(2-4), of "ascii ''a@b.com''" "ascii ''12345678''"]
    email_a_b_com
  show ?thesis by (simp add: ascii_def)
qed

text \<open>
  Claim C7. For every state, as the handler of the latest render sees it and with no
  other event handled while the save awaits the server; \<open>validated\<close> is the result of
  \<open>validateCurrent\<close>, which is that of the model wherever it gives one. When
  validation returns a message, save-and-continue only sets \<open>error\<close> to it: the store,
  the storage, \<open>currentIndex\<close> and every other field are as before, whatever the
  environment. When validation returns no error, the handler performs a manual save
  and then \<open>next\<close>: the result is that of \<open>saveDraft\<close> with the reason manual
  followed, below the last step, by \<open>GOTO\<close> to the next index. In that result the
  store and the data are as before, \<open>saving\<close> and \<open>dirty\<close> are false; when the state
  can be serialised and \<open>setItem\<close> does not throw, the storage holds its snapshot, and
  \<open>savedAt\<close> is the clock reading when the server call succeeds, while it is
  unchanged, with the error of the network on the last step, when the call fails; when
  the snapshot cannot be written, the storage and \<open>savedAt\<close> are unchanged.
  \<open>currentIndex\<close> is one more than before, or the same on the last step, within 0
  and 4.
\<close>

theorem save_and_continue:
  "(validated h s g = Inr (Some m) \<and> m \<noteq> [] \<longrightarrow>
      handleSaveAndContinue e g s (h, s, st) = (h, s\<lparr>error := Some m\<rparr>, st))
   \<and> (validateCurrent h s = Inr (Some m) \<longrightarrow>
        handleSaveAndContinue e g s (h, s, st) = (h, s\<lparr>error := Some m\<rparr>, st))
   \<and> (validated h s g = Inr None \<longrightarrow>
        handleSaveAndContinue e g s (h, s, st) =
          (fst (saveDraft e (Some Manual) s (h, s, st)),
           (if currentIndex s < 4
            then (fst (snd (saveDraft e (Some Manual) s (h, s, st))))
                   \<lparr>currentIndex := currentIndex s + 1, error := None\<rparr>
            else fst (snd (saveDraft e (Some Manual) s (h, s, st)))),
           snd (snd (saveDraft e (Some Manual) s (h, s, st))))
        \<and> fst (handleSaveAndContinue e g s (h, s, st)) = h
        \<and> data (fst (snd (handleSaveAndContinue e g s (h, s, st)))) = data s
        \<and> saving (fst (snd (handleSaveAndContinue e g s (h, s, st)))) = False
        \<and> dirty (fst (snd (handleSaveAndContinue e g s (h, s, st)))) = False
        \<and> (\<forall>doc. stringify_state h s = Some doc \<and> setItem_throws e = None \<longrightarrow>
              snd (snd (handleSaveAndContinue e g s (h, s, st))) = Item doc
              \<and> (\<not> random e < 5 / 100 \<longrightarrow>
                    savedAt (fst (snd (handleSaveAndContinue e g s (h, s, st)))) = Some (clock e)
                    \<and> error (fst (snd (handleSaveAndContinue e g s (h, s, st)))) = None)
              \<and> (random e < 5 / 100 \<longrightarrow>
                    savedAt (fst (snd (handleSaveAndContinue e g s (h, s, st)))) = savedAt s
                    \<and> error (fst (snd (handleSaveAndContinue e g s (h, s, st))))
                        = (if currentIndex s < 4 then None else Some msg_network)))
        \<and> (stringify_state h s = None \<or> setItem_throws e \<noteq> None \<longrightarrow>
              snd (snd (handleSaveAndContinue e g s (h, s, st))) = st
              \<and> savedAt (fst (snd (handleSaveAndContinue e g s (h, s, st)))) = savedAt s)
        \<and> currentIndex (fst (snd (handleSaveAndContinue e g s (h, s, st))))
            = (if currentIndex s < 4 then currentIndex s + 1 else currentIndex s)
        \<and> 0 \<le> currentIndex (fst (snd (handleSaveAndContinue e g s (h, s, st))))
        \<and> currentIndex (fst (snd (handleSaveAndContinue e g s (h, s, st)))) \<le> 4)
   \<and> (validateCurrent h s = Inr None \<longrightarrow> validated h s g = Inr None)"
proof (intro conjI impI allI)
  assume "validated h s g = Inr (Some m) \<and> m \<noteq> []"
  then show "handleSaveAndContinue e g s (h, s, st) = (h, s\<lparr>error := Some m\<rparr>, st)"
    by (simp add: handleSaveAndContinue_message)
next
  assume v: "validateCurrent h s = Inr (Some m)"
  from v have "m \<noteq> []" by (rule validateCurrent_nonempty)
  with validated_Inr[OF v, of g]
  show "handleSaveAndContinue e g s (h, s, st) = (h, s\<lparr>error := Some m\<rparr>, st)"
    by (simp add: handleSaveAndContinue_message)
next
  assume "validateCurrent h s = Inr None"
  then show "validated h s g = Inr None" by (rule validated_Inr)
next
  assume v: "validated h s g = Inr None"
  let ?W = "saveDraft e (Some Manual) s (h, s, st)"
  let ?R = "handleSaveAndContinue e g s (h, s, st)"
  note eq = handleSaveAndContinue_valid[OF v, of e st]
  show "?R = (fst ?W,
           (if currentIndex s < 4
            then (fst (snd ?W))\<lparr>currentIndex := currentIndex s + 1, error := None\<rparr>
            else fst (snd ?W)),
           snd (snd ?W))"
    by (rule eq)
  show "fst ?R = h" "data (fst (snd ?R)) = data s" "saving (fst (snd ?R)) = False"
    "dirty (fst (snd ?R)) = False"
    unfolding eq by (simp_all add: manual_save_effects)
  show idx: "currentIndex (fst (snd ?R))
            = (if currentIndex s < 4 then currentIndex s + 1 else currentIndex s)"
    unfolding eq by (simp add: saveDraft_currentIndex)
  from validated_index[OF v] have "0 \<le> currentIndex s" "currentIndex s < 5" by simp_all
  then show "0 \<le> currentIndex (fst (snd ?R))" and "currentIndex (fst (snd ?R)) \<le> 4"
    unfolding idx by simp_all
  { assume n: "stringify_state h s = None \<or> setItem_throws e \<noteq> None"
    show "snd (snd ?R) = st" "savedAt (fst (snd ?R)) = savedAt s"
      unfolding eq using manual_save_not_written[OF n, of st] by simp_all }
  { fix doc assume w: "stringify_state h s = Some doc \<and> setItem_throws e = None"
    then have w1: "stringify_state h s = Some doc" and w2: "setItem_throws e = None" by simp_all
    show "snd (snd ?R) = Item doc"
      unfolding eq using manual_save_written(1)[OF w1 w2, of st] by simp
    { assume r: "\<not> random e < 5 / 100"
      show "savedAt (fst (snd ?R)) = Some (clock e)" "error (fst (snd ?R)) = None"
        unfolding eq using manual_save_written(2)[OF w1 w2 r, of st] by simp_all }
    { assume r: "random e < 5 / 100"
      show "savedAt (fst (snd ?R)) = savedAt s"
        "error (fst (snd ?R)) = (if currentIndex s < 4 then None else Some msg_network)"
        unfolding eq using manual_save_written(3)[OF w1 w2 r, of st] by simp_all } }
qed

text \<open>
  Claim C7 on the initial state, where the email is missing, and on a dirty state with
  a filled account step and a server that answers: the snapshot is in storage,
  \<open>savedAt\<close> is set, \<open>dirty\<close> and \<open>saving\<close> are false, and the index moves from 0 to 1.
\<close>

theorem save_and_continue_witness:
  "validateCurrent initialHeap initialState = Inr (Some msg_email_required)
   \<and> handleSaveAndContinue env_up (Inr None) initialState (initialHeap, initialState, NoItem)
       = (initialHeap, initialState\<lparr>error := Some msg_email_required\<rparr>, NoItem)
   \<and> validateCurrent (account_store (ascii ''a@b.com'') (ascii ''12345678'')) dirtyState = Inr None
   \<and> stringify_state (account_store (ascii ''a@b.com'') (ascii ''12345678'')) dirtyState
       = Some filledDoc
   \<and> setItem_throws env_up = None \<and> \<not> random env_up < 5 / 100
   \<and> snd (snd (handleSaveAndContinue env_up (Inr None) dirtyState
         (account_store (ascii ''a@b.com'') (ascii ''12345678''), dirtyState, NoItem)))
       = Item filledDoc
   \<and> savedAt (fst (snd (handleSaveAndContinue env_up (Inr None) dirtyState
         (account_store (ascii ''a@b.com'') (ascii ''12345678''), dirtyState, NoItem))))
       = Some (clock env_up)
   \<and> dirty (fst (snd (handleSaveAndContinue env_up (Inr None) dirtyState
         (account_store (ascii ''a@b.com'') (ascii ''12345678''), dirtyState, NoItem)))) = False
   \<and> saving (fst (snd (handleSaveAndContinue env_up (Inr None) dirtyState
         (account_store (ascii ''a@b.com'') (ascii ''12345678''), dirtyState, NoItem)))) = False
   \<and> currentIndex (fst (snd (handleSaveAndContinue env_up (Inr None) dirtyState
         (account_store (ascii ''a@b.com'') (ascii ''12345678''), dirtyState, NoItem)))) = 1"
proof -
  let ?H = "account_store (ascii ''a@b.com'') (ascii ''12345678'')"
  let ?R = "handleSaveAndContinue env_up (Inr None) dirtyState (?H, dirtyState, NoItem)"
  have a: "setItem_throws env_up = None" by (simp add: env_up_def)
  have b: "\<not> random env_up < 5 / 100" by (simp add: env_up_def)
  from save_and_continue[of initialHeap initialState "Inr None" msg_email_required env_up NoItem]
    validate_initial
  have 1: "handleSaveAndContinue env_up (Inr None) initialState (initialHeap, initialState, NoItem)
       = (initialHeap, initialState\<lparr>error := Some msg_email_required\<rparr>, NoItem)"
    by blast
  note t = save_and_continue[of ?H dirtyState "Inr None" "[]" env_up NoItem]
  from t validate_filled_dirty stringify_filled a
  have 2: "snd (snd ?R) = Item filledDoc" by blast
  from t validate_filled_dirty stringify_filled a b
  have 3: "savedAt (fst (snd ?R)) = Some (clock env_up)" by blast
  from t validate_filled_dirty have 4: "dirty (fst (snd ?R)) = False" by blast
  from t validate_filled_dirty have 5: "saving (fst (snd ?R)) = False" by blast
  from t validate_filled_dirty
  have "currentIndex (fst (snd ?R))
      = (if currentIndex dirtyState < 4 then currentIndex dirtyState + 1 else currentIndex dirtyState)"
    by blast
  then have 6: "currentIndex (fst (snd ?R)) = 1"
    by (simp add: dirtyState_def initialState_def)
  from 1 2 3 4 5 6 a b validate_initial validate_filled_dirty stringify_filled
  show ?thesis by blast
qed

section \<open>The index stays in range\<close>

lemma in_range_dispatch_flags:
  "currentIndex (snd (dispatch now [SET_SAVING True, SET_ERROR None] (h, s))) = currentIndex s"
  "fst (dispatch now [SET_SAVING True, SET_ERROR None] (h, s)) = h"
  by simp_all

lemma finish_save_index:
  "currentIndex (snd (finish_save e opts r (h, s))) = currentIndex s"
  by (cases r) (simp_all add: finish_save_def Let_def)

lemma in_range_next_step:
  "in_range c \<Longrightarrow> in_range s \<Longrightarrow> in_range (snd (next_step now c (h, s)))"
  by (simp add: in_range_def next_step_def length_STEPS)

lemma in_range_prev_step:
  "in_range c \<Longrightarrow> in_range s \<Longrightarrow> in_range (snd (prev_step now c (h, s)))"
  by (simp add: in_range_def prev_step_def length_STEPS)

lemma in_range_then_next:
  assumes "case nx of None \<Rightarrow> True | Some c \<Rightarrow> in_range c" "in_range (snd hs)"
  shows "in_range (snd (then_next e nx hs))"
  using assms in_range_next_step[of _ "snd hs" _ "fst hs"]
  by (cases nx) (simp_all add: then_next_def)

lemma in_range_finish_save: "in_range (snd hs) \<Longrightarrow> in_range (snd (finish_save e opts r hs))"
  using finish_save_index[of e opts r "fst hs" "snd hs"] by (simp add: in_range_def)

lemma write_snapshot_storage_ok:
  "storage_ok st \<Longrightarrow> in_range c \<Longrightarrow> storage_ok (fst (write_snapshot e h c st))"
  by (auto simp: write_snapshot_def stringify_state_def in_range_def split: option.splits ser.splits)

lemma config_ok_begin_save:
  assumes "config_ok cfg" "in_range c" "case nx of None \<Rightarrow> True | Some c' \<Rightarrow> in_range c'"
  shows "config_ok (begin_save e opts c nx cfg)"
proof -
  let ?hs1 = "dispatch (clock e) [SET_SAVING True, SET_ERROR None] (store cfg, live cfg)"
  have r1: "in_range (snd ?hs1)" using assms(1) by (simp add: config_ok_def in_range_def)
  obtain st' r where w: "write_snapshot e (fst ?hs1) c (disk cfg) = (st', r)"
    by (cases "write_snapshot e (fst ?hs1) c (disk cfg)")
  have st': "storage_ok st'"
    using write_snapshot_storage_ok[of "disk cfg" c e "fst ?hs1"] assms(1,2) w
    by (simp add: config_ok_def)
  show ?thesis
  proof (cases r)
    case (Returned u)
    then show ?thesis
      using assms w st' r1 by (simp add: begin_save_def Let_def config_ok_def)
  next
    case (Threw m)
    have "in_range (snd (then_next e nx (finish_save e opts (Threw m) ?hs1)))"
      using assms(3) r1 by (intro in_range_then_next in_range_finish_save)
    then show ?thesis
      using assms(1) w st' Threw by (simp add: begin_save_def Let_def config_ok_def)
  qed
qed

lemma list_all_remove_nth:
  "list_all P xs \<Longrightarrow> list_all P (take k xs) \<and> list_all P (drop (Suc k) xs)"
  by (auto simp: list_all_iff dest: in_set_takeD in_set_dropD)

lemma config_ok_complete:
  assumes "config_ok cfg"
  shows "config_ok (complete k cfg)"
proof (cases "k < length (inflight cfg)")
  case False
  then show ?thesis using assms by (simp add: complete_def)
next
  case True
  obtain e opts nx where p: "inflight cfg ! k = (e, opts, nx)" by (cases "inflight cfg ! k")
  have "pending_ok (inflight cfg ! k)"
    using assms True by (simp add: config_ok_def list_all_length)
  then have nx: "case nx of None \<Rightarrow> True | Some c \<Rightarrow> in_range c" using p by simp
  have "in_range (snd (then_next e nx
      (finish_save e opts (fakeSaveToServer (random e)) (store cfg, live cfg))))"
    using nx assms by (intro in_range_then_next in_range_finish_save) (simp_all add: config_ok_def)
  then show ?thesis
    using assms True p by (simp add: complete_def Let_def config_ok_def list_all_remove_nth)
qed

lemma launch_ok:
  assumes "storage_ok st"
  shows "in_range (fst (snd (launch now st)))" "snd (snd (launch now st)) = st"
proof -
  show "snd (snd (launch now st)) = st"
    by (cases st) (simp_all add: launch_def split: prod.splits)
  show "in_range (fst (snd (launch now st)))"
  proof (cases st)
    case (Item q)
    then show ?thesis
      using assms p_currentIndex_parse_stored[of initialHeap q]
      by (cases "parse_stored initialHeap q")
         (auto simp: launch_def Let_def initialState_def in_range_def length_STEPS
           split: option.splits)
  qed (simp_all add: launch_def initialState_def in_range_def length_STEPS)
qed

lemma config_ok_boot: "storage_ok st \<Longrightarrow> config_ok (boot now st)"
  using launch_ok[of st now]
  by (cases "launch now st") (simp add: boot_def config_ok_def)

lemma config_ok_step:
  assumes "event_ok ev" "config_ok cfg"
  shows "config_ok (step now ev cfg)"
proof (cases ev)
  case (ClickStep i)
  then show ?thesis using assms by (simp add: config_ok_def in_range_def)
next
  case ClickNext
  have "in_range (snd (next_step now (live cfg) (store cfg, live cfg)))"
    using assms(2) by (intro in_range_next_step) (simp_all add: config_ok_def)
  then show ?thesis using ClickNext assms(2) by (simp add: config_ok_def Let_def)
next
  case ClickPrev
  have "in_range (snd (prev_step now (live cfg) (store cfg, live cfg)))"
    using assms(2) by (intro in_range_prev_step) (simp_all add: config_ok_def)
  then show ?thesis using ClickPrev assms(2) by (simp add: config_ok_def Let_def)
next
  case (Edit p v)
  have "currentIndex (snd (onChange now p v (store cfg, live cfg))) = currentIndex (live cfg)"
    by (simp add: onChange_def Let_def split: prod.splits)
  then have "in_range (snd (onChange now p v (store cfg, live cfg)))"
    using assms(2) by (simp add: config_ok_def in_range_def)
  then show ?thesis using Edit assms(2) by (simp add: config_ok_def Let_def)
next
  case (ClickSave e)
  then show ?thesis using assms(2) config_ok_begin_save[of cfg "live cfg" None e "Some Manual"]
    by (simp add: config_ok_def)
next
  case (ClickSaveAndContinue e g)
  show ?thesis
  proof (cases "validated (store cfg) (live cfg) g")
    case (Inl f)
    then show ?thesis using ClickSaveAndContinue assms(2) by (simp add: begin_save_and_continue_def)
  next
    case (Inr err)
    have "config_ok (begin_save e (Some Manual) (live cfg) (Some (live cfg)) cfg)"
      using assms(2) by (intro config_ok_begin_save) (simp_all add: config_ok_def)
    then show ?thesis using ClickSaveAndContinue assms(2) Inr
      by (simp add: begin_save_and_continue_def Let_def config_ok_def in_range_def)
  qed
next
  case (TimerFires e)
  show ?thesis
  proof (cases "timer cfg")
    case None
    then show ?thesis using TimerFires assms(2) by simp
  next
    case (Some c)
    have "config_ok (cfg\<lparr>timer := None\<rparr>)" using assms(2) by (simp add: config_ok_def)
    moreover have "in_range c" using assms(2) Some by (simp add: config_ok_def)
    ultimately have "config_ok (begin_save e (Some Auto) c None (cfg\<lparr>timer := None\<rparr>))"
      by (intro config_ok_begin_save) simp_all
    then show ?thesis using TimerFires Some by simp
  qed
next
  case (Completes k)
  then show ?thesis using assms(2) by (simp add: config_ok_complete)
next
  case Reload
  have "storage_ok (disk cfg)" using assms(2) by (simp add: config_ok_def)
  then show ?thesis using Reload by (simp add: config_ok_boot)
next
  case ClickReset
  then show ?thesis by (simp add: resetAll_def launch_def config_ok_boot)
qed

lemma config_ok_exec:
  "\<forall>ev\<in>set evs. event_ok ev \<Longrightarrow> config_ok cfg \<Longrightarrow> config_ok (exec now evs cfg)"
  by (induction evs arbitrary: cfg) (simp_all add: config_ok_step)

lemma saveDraft_finish:
  "saveDraft e opts c (h, s, st) =
     (let hs1 = dispatch (clock e) [SET_SAVING True, SET_ERROR None] (h, s);
          hs4 = finish_save e opts (snd (try_save e h c st)) hs1
      in (fst hs4, snd hs4, fst (try_save e h c st)))"
  by (cases "try_save e h c st") (simp add: saveDraft_def finish_save_def Let_def)

lemma try_save_write_snapshot:
  "try_save e h c st =
     (case write_snapshot e h c st of
        (st', Returned u) \<Rightarrow> (st', fakeSaveToServer (random e))
      | (st', Threw m) \<Rightarrow> (st', Threw m))"
  by (simp add: try_save_def write_snapshot_def split: option.splits)

lemma save_as_steps:
  assumes "inflight cfg = []"
  shows "(store (complete 0 (begin_save e opts c nx cfg)),
          live (complete 0 (begin_save e opts c nx cfg)),
          disk (complete 0 (begin_save e opts c nx cfg)))
     = (fst (then_next e nx (fst (saveDraft e opts c (store cfg, live cfg, disk cfg)),
                             fst (snd (saveDraft e opts c (store cfg, live cfg, disk cfg))))),
        snd (then_next e nx (fst (saveDraft e opts c (store cfg, live cfg, disk cfg)),
                             fst (snd (saveDraft e opts c (store cfg, live cfg, disk cfg))))),
        snd (snd (saveDraft e opts c (store cfg, live cfg, disk cfg))))"
proof -
  obtain st' r where w: "write_snapshot e (store cfg) c (disk cfg) = (st', r)"
    by (cases "write_snapshot e (store cfg) c (disk cfg)")
  show ?thesis
  proof (cases r)
    case (Returned u)
    with w assms show ?thesis
      by (simp add: saveDraft_finish try_save_write_snapshot begin_save_def complete_def Let_def)
  next
    case (Threw m)
    with w assms show ?thesis
      by (simp add: saveDraft_finish try_save_write_snapshot begin_save_def complete_def Let_def)
  qed
qed

lemma saveDraft_as_steps:
  assumes "inflight cfg = []"
  shows "(store (complete 0 (begin_save e opts c None cfg)),
          live (complete 0 (begin_save e opts c None cfg)),
          disk (complete 0 (begin_save e opts c None cfg)))
     = saveDraft e opts c (store cfg, live cfg, disk cfg)"
  unfolding save_as_steps[OF assms] by (simp add: then_next_def)

lemma handleSaveAndContinue_as_steps:
  assumes "inflight cfg = []"
  shows "(store (complete 0 (begin_save_and_continue e g c cfg)),
          live (complete 0 (begin_save_and_continue e g c cfg)),
          disk (complete 0 (begin_save_and_continue e g c cfg)))
     = handleSaveAndContinue e g c (store cfg, live cfg, disk cfg)"
proof (cases "validated (store cfg) c g")
  case (Inl f)
  with assms show ?thesis
    by (simp add: begin_save_and_continue_def handleSaveAndContinue_def complete_def)
next
  case (Inr err)
  show ?thesis
  proof (cases "err \<noteq> None \<and> err \<noteq> Some []")
    case True
    with Inr assms show ?thesis
      by (simp add: begin_save_and_continue_def handleSaveAndContinue_def complete_def Let_def)
  next
    case False
    have b: "begin_save_and_continue e g c cfg = begin_save e (Some Manual) c (Some c) cfg"
      unfolding begin_save_and_continue_def Inr using False by (simp only: sum.case if_False)
    have "handleSaveAndContinue e g c (store cfg, live cfg, disk cfg) =
        (case saveDraft e (Some Manual) c (store cfg, live cfg, disk cfg) of (h1, s1, st1) \<Rightarrow>
           (case next_step (clock e) c (h1, s1) of (h2, s2) \<Rightarrow> (h2, s2, st1)))"
      unfolding handleSaveAndContinue_def prod.case Inr using False
      by (simp only: sum.case if_False)
    then show ?thesis
      unfolding b save_as_steps[OF assms] by (simp add: then_next_def split: prod.splits)
  qed
qed

lemma staleTimerRun_result:
  "currentIndex (live (exec [] staleTimerRun (boot [] NoItem))) = 2"
  "(case disk (exec [] staleTimerRun (boot [] NoItem)) of Item q \<Rightarrow> q_currentIndex q | _ \<Rightarrow> None)
     = Some 0"
  by code_simp+

text \<open>
  Claim C8. From a page loaded on a storage that is empty, unreadable, or holds a
  snapshot with an index of \<open>STEPS\<close> (as every snapshot written by a save does), after
  any sequence of events of the session, \<open>currentIndex\<close> is between 0 and 4. The
  events are the clicks on the step buttons, on prev, save, save-and-continue and
  reset, a call of \<open>next\<close>, the edits, the reloads, the autosave timer firing for the
  render that armed it, and the server answering a save in flight (followed by the
  \<open>next\<close> of save-and-continue, with the index of its closure), in any interleaving.
  \<open>next\<close> called by the latest render does nothing from the last index on, \<open>prev\<close>
  does nothing at index 0 or below, and both keep an index in range; so do \<open>next\<close>
  and \<open>prev\<close> called by any closure whose index is in range on a live state whose
  index is in range.
\<close>

theorem index_in_range:
  assumes "storage_ok st0" and "\<forall>ev\<in>set evs. event_ok ev"
  shows "0 \<le> currentIndex (live (exec now evs (boot now st0)))
    \<and> currentIndex (live (exec now evs (boot now st0))) \<le> 4
    \<and> (4 \<le> currentIndex (live cfg) \<longrightarrow> step now ClickNext cfg = cfg)
    \<and> (currentIndex (live cfg) \<le> 0 \<longrightarrow> step now ClickPrev cfg = cfg)
    \<and> (0 \<le> currentIndex (live cfg) \<and> currentIndex (live cfg) \<le> 4 \<longrightarrow>
         0 \<le> currentIndex (live (step now ClickNext cfg))
         \<and> currentIndex (live (step now ClickNext cfg)) \<le> 4
         \<and> 0 \<le> currentIndex (live (step now ClickPrev cfg))
         \<and> currentIndex (live (step now ClickPrev cfg)) \<le> 4)
    \<and> (0 \<le> currentIndex c \<and> currentIndex c \<le> 4 \<and> 0 \<le> currentIndex s \<and> currentIndex s \<le> 4 \<longrightarrow>
         0 \<le> currentIndex (snd (next_step now c (h, s)))
         \<and> currentIndex (snd (next_step now c (h, s))) \<le> 4
         \<and> 0 \<le> currentIndex (snd (prev_step now c (h, s)))
         \<and> currentIndex (snd (prev_step now c (h, s))) \<le> 4)"
proof -
  let ?cfg = "exec now evs (boot now st0)"
  have "config_ok ?cfg"
    using assms by (intro config_ok_exec config_ok_boot)
  then have "0 \<le> currentIndex (live ?cfg) \<and> currentIndex (live ?cfg) \<le> 4"
    by (simp add: config_ok_def in_range_def length_STEPS)
  moreover have "4 \<le> currentIndex (live cfg) \<longrightarrow> step now ClickNext cfg = cfg"
    by (simp add: next_step_def length_STEPS)
  moreover have "currentIndex (live cfg) \<le> 0 \<longrightarrow> step now ClickPrev cfg = cfg"
    by (simp add: prev_step_def)
  moreover have "0 \<le> currentIndex (live cfg) \<and> currentIndex (live cfg) \<le> 4 \<longrightarrow>
         0 \<le> currentIndex (live (step now ClickNext cfg))
         \<and> currentIndex (live (step now ClickNext cfg)) \<le> 4
         \<and> 0 \<le> currentIndex (live (step now ClickPrev cfg))
         \<and> currentIndex (live (step now ClickPrev cfg)) \<le> 4"
    by (simp add: next_step_def prev_step_def length_STEPS)
  moreover have "0 \<le> currentIndex c \<and> currentIndex c \<le> 4 \<and> 0 \<le> currentIndex s \<and> currentIndex s \<le> 4 \<longrightarrow>
         0 \<le> currentIndex (snd (next_step now c (h, s)))
         \<and> currentIndex (snd (next_step now c (h, s))) \<le> 4
         \<and> 0 \<le> currentIndex (snd (prev_step now c (h, s)))
         \<and> currentIndex (snd (prev_step now c (h, s))) \<le> 4"
    by (simp add: next_step_def prev_step_def length_STEPS)
  ultimately show ?thesis by blast
qed

text \<open>
  Claim C8 on a first load followed by the session with the stale timer: the index
  ends at 2, in range, while the snapshot written by the timer holds the index 0 of
  the render that armed it; and a click on prev does nothing on the initial state.
\<close>

theorem index_in_range_witness:
  "storage_ok NoItem
   \<and> event_ok (Edit (ascii ''data.account.email'') (VStr (ascii ''x''))) \<and> event_ok (ClickStep 2)
   \<and> event_ok (TimerFires env_up) \<and> event_ok (Completes 0)
   \<and> 0 \<le> currentIndex (live (exec [] staleTimerRun (boot [] NoItem)))
   \<and> currentIndex (live (exec [] staleTimerRun (boot [] NoItem))) \<le> 4
   \<and> currentIndex (live (exec [] staleTimerRun (boot [] NoItem))) = 2
   \<and> (case disk (exec [] staleTimerRun (boot [] NoItem)) of Item q \<Rightarrow> q_currentIndex q
        | _ \<Rightarrow> None) = Some 0
   \<and> step [] ClickPrev (boot [] NoItem) = boot [] NoItem"
proof -
  have a: "storage_ok NoItem" by simp
  have b: "\<forall>ev\<in>set staleTimerRun. event_ok ev" by (simp add: staleTimerRun_def length_STEPS)
  have i: "currentIndex (live (boot [] NoItem)) \<le> 0"
    by (simp add: boot_def launch_def initialState_def)
  note t = index_in_range[OF a b, of "[]" "boot [] NoItem"]
  from t have 1: "0 \<le> currentIndex (live (exec [] staleTimerRun (boot [] NoItem)))
      \<and> currentIndex (live (exec [] staleTimerRun (boot [] NoItem))) \<le> 4" by blast
  from t i have 2: "step [] ClickPrev (boot [] NoItem) = boot [] NoItem" by blast
  have c: "event_ok (Edit (ascii ''data.account.email'') (VStr (ascii ''x''))) \<and> event_ok (ClickStep 2)
      \<and> event_ok (TimerFires env_up) \<and> event_ok (Completes 0)"
    by (simp add: length_STEPS)
  from a c 1 2 staleTimerRun_result show ?thesis by blast
qed

section \<open>Hydration from a stored snapshot\<close>

lemma to_json_Suc:
  "to_json n h v \<noteq> Cyclic \<Longrightarrow> to_json (Suc n) h v = to_json n h v"
  "to_json_fields n h ob \<noteq> None \<Longrightarrow> to_json_fields (Suc n) h ob = to_json_fields n h ob"
proof (induction n h v and n h ob rule: to_json_to_json_fields.induct)
  case (7 n h a)
  then show ?case by (cases "to_json_fields n h (obj_at h a)") simp_all
next
  case (9 n h k v ps)
  show ?case
  proof (cases "to_json n h v")
    case Cyclic
    with 9(4) show ?thesis by simp
  next
    case Omitted
    with 9 show ?thesis by simp
  next
    case (Doc j)
    with 9 show ?thesis by (cases "to_json_fields n h ps") simp_all
  qed
qed simp_all

lemma to_json_le:
  "n \<le> m \<Longrightarrow> to_json n h v \<noteq> Cyclic \<Longrightarrow> to_json m h v = to_json n h v"
  by (induction m) (auto simp: le_Suc_eq to_json_Suc)

lemma to_json_fields_le:
  "n \<le> m \<Longrightarrow> to_json_fields n h ob \<noteq> None \<Longrightarrow> to_json_fields m h ob = to_json_fields n h ob"
  by (induction m) (auto simp: le_Suc_eq to_json_Suc)

lemma to_json_extends:
  "heap_ok h \<Longrightarrow> extends h H \<Longrightarrow> val_ok h v \<Longrightarrow> to_json n H v = to_json n h v"
  "heap_ok h \<Longrightarrow> extends h H \<Longrightarrow> \<forall>p\<in>set ob. val_ok h (snd p) \<Longrightarrow>
   to_json_fields n H ob = to_json_fields n h ob"
proof (induction n H v and n H ob rule: to_json_to_json_fields.induct)
  case (7 n H a)
  then have a: "a < length h" by simp
  then have o: "obj_at H a = obj_at h a" using 7(3) by (simp add: extends_obj_at)
  have "\<forall>p\<in>set (obj_at h a). val_ok h (snd p)"
    using 7(2) a by (auto simp: obj_at_def intro: heap_okD)
  then have "to_json_fields n H (obj_at h a) = to_json_fields n h (obj_at h a)"
    using 7(1)[OF 7(2,3)] o by simp
  then show ?case using o by simp
next
  case (9 n H k v ps)
  have v: "to_json n H v = to_json n h v" using 9 by simp
  show ?case
  proof (cases "to_json n h v")
    case Cyclic
    then show ?thesis using v by simp
  next
    case Omitted
    then show ?thesis using v 9 by simp
  next
    case (Doc j)
    then show ?thesis using v 9 by simp
  qed
qed simp_all

lemma assign_fresh: "k \<notin> fst ` set ps \<Longrightarrow> assign k v ps = ps @ [(k, v)]"
  by (induction ps) auto

lemma distinct_assign: "distinct (map fst ps) \<Longrightarrow> distinct (map fst (assign k v ps))"
  by (simp add: keys_assign)

lemma assign_ok:
  assumes "\<forall>p\<in>set ps. val_ok h (snd p)" "val_ok h v"
  shows "\<forall>p\<in>set (assign k v ps). val_ok h (snd p)"
proof
  fix p assume "p \<in> set (assign k v ps)"
  then have "p = (k, v) \<or> p \<in> set ps" using set_assign by fastforce
  then show "val_ok h (snd p)" using assms by auto
qed

lemma parse_extends:
  "parse_json h j = (h', v) \<Longrightarrow> extends h h'"
  "parse_fields h kvs acc = (h', ob) \<Longrightarrow> extends h h'"
proof (induction h j and h kvs acc arbitrary: h' v and h' ob rule: parse_json_parse_fields.induct)
  case (5 h kvs)
  obtain h1 ob1 where p: "parse_fields h kvs [] = (h1, ob1)" by (cases "parse_fields h kvs []")
  with 5(2) have "h' = h1 @ [ob1]" by simp
  moreover have "extends h h1" using 5(1)[OF p] .
  ultimately show ?case using extends_append extends_trans by blast
next
  case (7 h k j kvs acc)
  obtain h1 v1 where p: "parse_json h j = (h1, v1)" by (cases "parse_json h j")
  with 7(3) have r: "parse_fields h1 kvs (assign k v1 acc) = (h', ob)" by simp
  have "extends h h1" using 7(1)[OF p] .
  moreover have "extends h1 h'" using 7(2)[OF p[symmetric] refl r] .
  ultimately show ?case by (rule extends_trans)
qed (simp_all add: extends_refl)

lemma extends_all_ok:
  "extends h H \<Longrightarrow> \<forall>p\<in>set ps. val_ok h (snd p) \<Longrightarrow> \<forall>p\<in>set ps. val_ok H (snd p)"
  using extends_val_ok by blast

lemma parse_ok:
  "parse_json h j = (h', v) \<Longrightarrow> heap_ok h \<Longrightarrow> heap_ok h' \<and> val_ok h' v"
  "parse_fields h kvs acc = (h', ob) \<Longrightarrow> heap_ok h \<Longrightarrow> \<forall>p\<in>set acc. val_ok h (snd p) \<Longrightarrow>
   heap_ok h' \<and> (\<forall>p\<in>set ob. val_ok h' (snd p))"
proof (induction h j and h kvs acc arbitrary: h' v and h' ob rule: parse_json_parse_fields.induct)
  case (5 h kvs)
  obtain h1 ob1 where p: "parse_fields h kvs [] = (h1, ob1)" by (cases "parse_fields h kvs []")
  with 5(2) have h': "h' = h1 @ [ob1]" and v: "v = VRef (length h1)" by simp_all
  have "heap_ok h1 \<and> (\<forall>p\<in>set ob1. val_ok h1 (snd p))" using 5(1)[OF p 5(3)] by simp
  then have "heap_ok (h1 @ [ob1])" by (intro heap_ok_append) blast+
  then show ?case using h' v by simp
next
  case (7 h k j kvs acc)
  obtain h1 v1 where p: "parse_json h j = (h1, v1)" by (cases "parse_json h j")
  with 7(3) have r: "parse_fields h1 kvs (assign k v1 acc) = (h', ob)" by simp
  have 1: "heap_ok h1 \<and> val_ok h1 v1" using 7(1)[OF p 7(4)] .
  have "\<forall>p\<in>set acc. val_ok h1 (snd p)"
    using extends_all_ok[OF parse_extends(1)[OF p] 7(5)] .
  then have "\<forall>p\<in>set (assign k v1 acc). val_ok h1 (snd p)"
    using 1 by (intro assign_ok) simp_all
  then show ?case using 7(2)[OF p[symmetric] refl r] 1 by blast
qed simp_all

lemma parse_depth:
  "parse_json h j = (h', v) \<Longrightarrow> length h + depth j \<le> length h'"
  "parse_fields h kvs acc = (h', ob) \<Longrightarrow> length h + depth_fields kvs \<le> length h'"
proof (induction h j and h kvs acc arbitrary: h' v and h' ob rule: parse_json_parse_fields.induct)
  case (5 h kvs)
  obtain h1 ob1 where p: "parse_fields h kvs [] = (h1, ob1)" by (cases "parse_fields h kvs []")
  with 5(2) have "h' = h1 @ [ob1]" by simp
  then show ?case using 5(1)[OF p] by simp
next
  case (7 h k j kvs acc)
  obtain h1 v1 where p: "parse_json h j = (h1, v1)" by (cases "parse_json h j")
  with 7(3) have r: "parse_fields h1 kvs (assign k v1 acc) = (h', ob)" by simp
  have "length h + depth j \<le> length h1" using 7(1)[OF p] .
  moreover have "length h1 + depth_fields kvs \<le> length h'" using 7(2)[OF p[symmetric] refl r] .
  ultimately show ?case by simp
qed simp_all

lemma parse_fields_distinct:
  "parse_fields h kvs acc = (h', ob) \<Longrightarrow> distinct (map fst acc) \<Longrightarrow> distinct (map fst ob)"
proof (induction kvs arbitrary: h acc)
  case Nil
  then show ?case by simp
next
  case (Cons kv kvs)
  obtain k j where kv: "kv = (k, j)" by (cases kv)
  obtain h1 v1 where p: "parse_json h j = (h1, v1)" by (cases "parse_json h j")
  with Cons(2) kv have r: "parse_fields h1 kvs (assign k v1 acc) = (h', ob)" by simp
  show ?case using Cons(1)[OF r] Cons(3) by (simp add: distinct_assign)
qed

lemma to_json_fields_append:
  "to_json_fields n h (xs @ ys) =
     (case to_json_fields n h xs of None \<Rightarrow> None
      | Some a \<Rightarrow> map_option (\<lambda>b. a @ b) (to_json_fields n h ys))"
proof (induction xs)
  case Nil
  then show ?case by (cases "to_json_fields n h ys") simp_all
next
  case (Cons p xs)
  obtain k v where p: "p = (k, v)" by (cases p)
  show ?case unfolding p
    by (cases "to_json n h v"; cases "to_json_fields n h xs"; cases "to_json_fields n h ys")
       (simp_all add: Cons[unfolded p])
qed

lemma parse_roundtrip:
  "parse_json h j = (h', v) \<Longrightarrow> heap_ok h \<Longrightarrow> wf_json j \<Longrightarrow> depth j \<le> n \<Longrightarrow>
   to_json n h' v = Doc j"
  "parse_fields h kvs acc = (h', ob) \<Longrightarrow> heap_ok h \<Longrightarrow> \<forall>p\<in>set acc. val_ok h (snd p) \<Longrightarrow>
   wf_fields kvs \<Longrightarrow> distinct (map fst kvs) \<Longrightarrow> fst ` set kvs \<inter> fst ` set acc = {} \<Longrightarrow>
   depth_fields kvs \<le> n \<Longrightarrow> to_json_fields n h acc = Some accj \<Longrightarrow>
   to_json_fields n h' ob = Some (accj @ kvs)"
proof (induction h j and h kvs acc arbitrary: h' v n and h' ob n accj
    rule: parse_json_parse_fields.induct)
  case (5 h kvs)
  obtain h1 ob1 where p: "parse_fields h kvs [] = (h1, ob1)" by (cases "parse_fields h kvs []")
  with 5(2) have h': "h' = h1 @ [ob1]" and v: "v = VRef (length h1)" by simp_all
  from 5(5) obtain m where n: "n = Suc m" and m: "depth_fields kvs \<le> m"
    by (cases n) simp_all
  have wf: "wf_fields kvs" "distinct (map fst kvs)" using 5(4) by simp_all
  have f: "to_json_fields m h1 ob1 = Some ([] @ kvs)"
    by (rule 5(1)[OF p 5(3) _ wf _ m]) simp_all
  have ok: "heap_ok h1 \<and> (\<forall>p\<in>set ob1. val_ok h1 (snd p))"
    using parse_ok(2)[OF p 5(3)] by simp
  have "to_json_fields m (h1 @ [ob1]) ob1 = to_json_fields m h1 ob1"
    using ok by (intro to_json_extends(2) extends_append) simp_all
  then show ?case using f by (simp add: h' v n obj_at_def)
next
  case (7 h k j kvs acc)
  obtain h1 v1 where p: "parse_json h j = (h1, v1)" by (cases "parse_json h j")
  with 7(3) have r: "parse_fields h1 kvs (assign k v1 acc) = (h', ob)" by simp
  have ext: "extends h h1" using parse_extends(1)[OF p] .
  have ok1: "heap_ok h1" "val_ok h1 v1" using parse_ok(1)[OF p 7(4)] by simp_all
  have kacc: "k \<notin> fst ` set acc" using 7(8) by auto
  then have as: "assign k v1 acc = acc @ [(k, v1)]" by (rule assign_fresh)
  have accok: "\<forall>p\<in>set (assign k v1 acc). val_ok h1 (snd p)"
    using extends_all_ok[OF ext 7(5)] ok1(2) by (intro assign_ok) simp_all
  have j: "to_json n h1 v1 = Doc j"
    using 7(6,9) by (intro 7(1)[OF p 7(4)]) simp_all
  have "to_json_fields n h1 acc = to_json_fields n h acc"
    using 7(4,5) ext by (intro to_json_extends(2)) simp_all
  then have a: "to_json_fields n h1 (assign k v1 acc) = Some (accj @ [(k, j)])"
    using 7(10) j by (simp add: as to_json_fields_append)
  have disj: "fst ` set kvs \<inter> fst ` set (assign k v1 acc) = {}"
    using 7(7,8) by (auto simp: as)
  have "to_json_fields n h' ob = Some ((accj @ [(k, j)]) @ kvs)"
    using 7(6,7,9) by (intro 7(2)[OF p[symmetric] refl r ok1(1) accok _ _ disj _ a]) simp_all
  then show ?case by simp
qed simp_all

lemma to_json_wf:
  "keys_distinct h \<Longrightarrow> to_json n h v = Doc j \<Longrightarrow> wf_json j"
  "keys_distinct h \<Longrightarrow> to_json_fields n h ob = Some kvs \<Longrightarrow>
   wf_fields kvs \<and> set (map fst kvs) \<subseteq> set (map fst ob)
   \<and> (distinct (map fst ob) \<longrightarrow> distinct (map fst kvs))"
proof (induction n h v and n h ob arbitrary: j and kvs rule: to_json_to_json_fields.induct)
  case (7 n h a)
  from 7(3) obtain kvs where f: "to_json_fields n h (obj_at h a) = Some kvs" and j: "j = JObj kvs"
    by (auto split: option.splits)
  have "distinct (map fst (obj_at h a))"
    using 7(2) by (auto simp: keys_distinct_def obj_at_def list_all_iff)
  then show ?case using 7(1)[OF 7(2) f] j by simp
next
  case (9 n h k v ps)
  note kd = 9(4) and eq = 9(5)
  show ?case
  proof (cases "to_json n h v")
    case Cyclic
    with eq show ?thesis by simp
  next
    case Omitted
    with eq have "to_json_fields n h ps = Some kvs" by simp
    from 9(2)[OF Omitted kd this] show ?thesis by auto
  next
    case (Doc j')
    with eq obtain r where r: "to_json_fields n h ps = Some r" and kvs: "kvs = (k, j') # r"
      by (auto split: option.splits)
    from 9(3)[OF Doc kd r] 9(1)[OF kd Doc] kvs show ?thesis by auto
  qed
qed auto

lemma map_of_to_json_fields:
  "distinct (map fst ob) \<Longrightarrow> to_json_fields n h ob = Some kvs \<Longrightarrow>
   map_of kvs k = (case map_of ob k of None \<Rightarrow> None
                   | Some v \<Rightarrow> (case to_json n h v of Doc j \<Rightarrow> Some j | _ \<Rightarrow> None))"
proof (induction ob arbitrary: kvs)
  case Nil
  then show ?case by simp
next
  case (Cons p ob)
  obtain k' v' where p: "p = (k', v')" by (cases p)
  have notin: "map_of ob k' = None" using Cons(2) p by (simp add: map_of_eq_None_iff)
  show ?case
  proof (cases "to_json n h v'")
    case Cyclic
    with Cons(3) p show ?thesis by simp
  next
    case Omitted
    with Cons(3) p have "to_json_fields n h ob = Some kvs" by simp
    from Cons(1)[OF _ this] Cons(2) Omitted notin show ?thesis by (simp add: p)
  next
    case (Doc j')
    with Cons(3) p obtain r where r: "to_json_fields n h ob = Some r" and kvs: "kvs = (k', j') # r"
      by (auto split: option.splits)
    from Cons(1)[OF _ r] Cons(2) Doc notin show ?thesis by (simp add: p kvs)
  qed
qed

lemma map_of_merge:
  "distinct (map fst b) \<Longrightarrow>
   map_of (merge a b) k = (case map_of b k of None \<Rightarrow> map_of a k | Some v \<Rightarrow> Some v)"
proof (induction b arbitrary: a)
  case Nil
  then show ?case by (simp add: merge_def)
next
  case (Cons p b)
  obtain k' v' where p: "p = (k', v')" by (cases p)
  have m: "merge a (p # b) = merge (assign k' v' a) b" by (simp add: merge_def p)
  have notin: "map_of b k' = None" using Cons(2) p by (simp add: map_of_eq_None_iff)
  show ?case unfolding m using Cons(1)[of "assign k' v' a"] Cons(2) notin
    by (simp add: p map_of_assign split: option.splits)
qed

lemma keys_merge:
  "distinct (map fst b) \<Longrightarrow>
   map fst (merge a b) = map fst a @ filter (\<lambda>k. k \<notin> set (map fst a)) (map fst b)"
proof (induction b arbitrary: a)
  case Nil
  then show ?case by (simp add: merge_def)
next
  case (Cons p b)
  obtain k' v' where p: "p = (k', v')" by (cases p)
  have m: "merge a (p # b) = merge (assign k' v' a) b" by (simp add: merge_def p)
  have notin: "k' \<notin> set (map fst b)" using Cons(2) p by simp
  have "filter (\<lambda>k. k \<noteq> k' \<and> k \<notin> fst ` set a) (map fst b)
      = filter (\<lambda>k. k \<notin> fst ` set a) (map fst b)"
    using notin by (intro filter_cong) auto
  then show ?case unfolding m using Cons(1)[of "assign k' v' a"] Cons(2) notin
    by (auto simp: p keys_assign)
qed

lemma parse_fields_keys:
  "parse_fields h kvs acc = (h', ob) \<Longrightarrow> distinct (map fst kvs) \<Longrightarrow>
   fst ` set kvs \<inter> fst ` set acc = {} \<Longrightarrow> map fst ob = map fst acc @ map fst kvs"
proof (induction kvs arbitrary: h acc)
  case Nil
  then show ?case by simp
next
  case (Cons kv kvs)
  obtain k j where kv: "kv = (k, j)" by (cases kv)
  obtain h1 v1 where p: "parse_json h j = (h1, v1)" by (cases "parse_json h j")
  with Cons(2) kv have r: "parse_fields h1 kvs (assign k v1 acc) = (h', ob)" by simp
  have kacc: "k \<notin> fst ` set acc" using Cons(4) kv by auto
  then have as: "assign k v1 acc = acc @ [(k, v1)]" by (rule assign_fresh)
  have "fst ` set kvs \<inter> fst ` set (assign k v1 acc) = {}"
    using Cons(3,4) kv by (auto simp: as)
  from Cons(1)[OF r _ this] Cons(3) kv show ?case by (simp add: as)
qed

lemma to_json_Ref_not_Omitted: "to_json n h (VRef a) \<noteq> Omitted"
  by (cases n) (simp_all split: option.splits)

lemma stringify_state_data:
  assumes "stringify_state h0 s0 = Some q" "data s0 = VRef d0"
  obtains kvs m where "q_data q = Some (JObj kvs)" "length h0 = Suc m"
    "to_json_fields m h0 (obj_at h0 d0) = Some kvs"
proof -
  from assms to_json_Ref_not_Omitted[of "length h0" h0 d0]
  obtain j where j: "stringify h0 (VRef d0) = Doc j" "q_data q = Some j"
    by (auto simp: stringify_state_def stringify_def split: ser.splits)
  then obtain m where m: "length h0 = Suc m"
    by (cases "length h0") (simp_all add: stringify_def)
  with j(1) obtain kvs where "to_json_fields m h0 (obj_at h0 d0) = Some kvs" "j = JObj kvs"
    by (auto simp: stringify_def split: option.splits)
  with j(2) m that show thesis by blast
qed

lemma reducer_hydrate_ref:
  assumes "reducer now h1 t (HYDRATE ps) = (h2, s2)" "p_data ps = Some (VRef d)"
  shows "h2 = h1 @ [merge (spread h1 (data t)) (obj_at h1 d)]" "data s2 = VRef (length h1)"
  using assms by (auto simp: Let_def)

lemma heap_ok_account_store: "heap_ok (account_store e p)"
  by (simp add: heap_ok_def account_store_def initialHeap_def)

lemma keys_distinct_initialHeap: "keys_distinct initialHeap"
  by (simp add: keys_distinct_def initialHeap_def ascii_def)

text \<open>
  Claim C5. Let the data of a state \<open>s0\<close> be serialised into a snapshot, and let the
  snapshot be parsed and passed to \<open>HYDRATE\<close> on any state \<open>t\<close> whose data is an object
  of a closed store. Then every field of the data of \<open>s0\<close> that is not \<open>undefined\<close>
  is reproduced: the field of the hydrated data serialises to the same document as
  the field of \<open>s0\<close>. A field that the data of \<open>s0\<close> lacks, and so the snapshot,
  keeps the value it has in \<open>t\<close>, and every key of the data of \<open>t\<close> is still a key:
  the snapshot is merged over the current data.
\<close>

theorem hydrate_round_trip:
  assumes "keys_distinct h0" and "data s0 = VRef d0" and "stringify_state h0 s0 = Some q"
    and "heap_ok h" and "data t = VRef dt" and "dt < length h"
    and "parse_stored h q = (h1, ps)" and "reducer now h1 t (HYDRATE ps) = (h2, s2)"
  shows "(\<forall>k. get_prop h0 d0 k \<noteq> VUndefined \<longrightarrow>
            stringify h2 (lookup h2 (data s2) [k]) = stringify h0 (get_prop h0 d0 k))
    \<and> (\<forall>k. get_prop h0 d0 k = VUndefined \<longrightarrow> lookup h2 (data s2) [k] = lookup h (data t) [k])
    \<and> set (own_keys h (data t)) \<subseteq> set (own_keys h2 (data s2))"
proof -
  from stringify_state_data[OF assms(3,2)] obtain kvs m where
    q: "q_data q = Some (JObj kvs)" and m: "length h0 = Suc m"
    and f0: "to_json_fields m h0 (obj_at h0 d0) = Some kvs"
    by blast
  have d0: "distinct (map fst (obj_at h0 d0))"
    using assms(1) by (auto simp: keys_distinct_def obj_at_def list_all_iff)
  have wf: "wf_fields kvs" "distinct (map fst kvs)"
    using to_json_wf(2)[OF assms(1) f0] d0 by simp_all
  \<comment> \<open>the parsed snapshot\<close>
  obtain hp ob where pf: "parse_fields h kvs [] = (hp, ob)" by (cases "parse_fields h kvs []")
  from assms(7) q pf have h1: "h1 = hp @ [ob]" and ps: "p_data ps = Some (VRef (length hp))"
    by (auto simp: parse_stored_def)
  have okp: "heap_ok hp" "\<forall>p\<in>set ob. val_ok hp (snd p)"
    using parse_ok(2)[OF pf assms(4)] by simp_all
  have ok1: "heap_ok h1" unfolding h1 using okp by (intro heap_ok_append) blast+
  have ext_h_hp: "extends h hp" using parse_extends(2)[OF pf] .
  have ext_h_h1: "extends h h1" unfolding h1 using ext_h_hp extends_append extends_trans by blast
  have rt: "to_json_fields (depth_fields kvs) hp ob = Some ([] @ kvs)"
    by (rule parse_roundtrip(2)[OF pf assms(4) _ wf]) simp_all
  have "to_json_fields (depth_fields kvs) h1 ob = to_json_fields (depth_fields kvs) hp ob"
    unfolding h1 using okp by (intro to_json_extends(2) extends_append) simp_all
  then have rt1: "to_json_fields (depth_fields kvs) h1 ob = Some kvs" using rt by simp
  have dob: "distinct (map fst ob)" using parse_fields_distinct[OF pf] by simp
  have kob: "map fst ob = map fst kvs" using parse_fields_keys[OF pf wf(2)] by simp
  have ob1: "obj_at h1 (length hp) = ob" by (simp add: h1 obj_at_def)
  have dep: "depth_fields kvs \<le> length h1"
    using parse_depth(2)[OF pf] by (simp add: h1)
  \<comment> \<open>the hydrated state\<close>
  let ?cur = "obj_at h1 dt"
  from reducer_hydrate_ref[OF assms(8) ps] assms(5)
  have h2: "h2 = h1 @ [merge ?cur ob]" and s2: "data s2 = VRef (length h1)"
    by (simp_all add: ob1)
  have cur: "?cur = obj_at h dt" using ext_h_h1 assms(6) by (rule extends_obj_at)
  have ext12: "extends h1 h2" unfolding h2 by (rule extends_append)
  have look: "lookup h2 (data s2) [k] = (case map_of (merge ?cur ob) k of None \<Rightarrow> VUndefined | Some v \<Rightarrow> v)" for k
    by (simp add: s2 h2 get_prop_def obj_at_def)
  have mm: "map_of (merge ?cur ob) k = (case map_of ob k of None \<Rightarrow> map_of ?cur k | Some v \<Rightarrow> Some v)" for k
    using dob by (rule map_of_merge)
  have 1: "stringify h2 (lookup h2 (data s2) [k]) = stringify h0 (get_prop h0 d0 k)"
    if "get_prop h0 d0 k \<noteq> VUndefined" for k
  proof -
    from that obtain v0 where v0: "map_of (obj_at h0 d0) k = Some v0" "get_prop h0 d0 k = v0"
      by (auto simp: get_prop_def split: option.splits)
    have "map_of kvs k = (case to_json m h0 v0 of Doc j \<Rightarrow> Some j | _ \<Rightarrow> None)"
      using map_of_to_json_fields[OF d0 f0, of k] v0 by simp
    moreover have "to_json m h0 v0 \<noteq> Omitted"
      using that v0 by (cases v0) (simp_all add: to_json_Ref_not_Omitted)
    moreover have "to_json m h0 v0 \<noteq> Cyclic"
    proof
      assume c: "to_json m h0 v0 = Cyclic"
      from v0(1) have "(k, v0) \<in> set (obj_at h0 d0)" by (rule map_of_SomeD)
      then obtain xs ys where "obj_at h0 d0 = xs @ (k, v0) # ys" by (meson split_list)
      then have "to_json_fields m h0 (obj_at h0 d0) = None"
        using c by (simp add: to_json_fields_append split: option.splits)
      with f0 show False by simp
    qed
    ultimately obtain j where j: "to_json m h0 v0 = Doc j" "map_of kvs k = Some j"
      by (cases "to_json m h0 v0") auto
    have l: "stringify h0 v0 = Doc j"
      using to_json_le[of m "length h0" h0 v0] j(1) m by (simp add: stringify_def)
    from map_of_to_json_fields[OF dob rt1, of k] j(2)
    obtain v where v: "map_of ob k = Some v" "to_json (depth_fields kvs) h1 v = Doc j"
      by (auto split: option.splits ser.splits)
    have vok: "val_ok h1 v"
    proof -
      from v(1) have "(k, v) \<in> set ob" by (rule map_of_SomeD)
      then have "val_ok hp v" using okp(2) by fastforce
      then show ?thesis unfolding h1 by (rule extends_val_ok[OF extends_append])
    qed
    have "lookup h2 (data s2) [k] = v" using look[of k] mm[of k] v(1) by simp
    moreover have "to_json (length h2) h2 v = to_json (length h2) h1 v"
      using ok1 ext12 vok by (rule to_json_extends(1))
    moreover have "to_json (length h2) h1 v = to_json (depth_fields kvs) h1 v"
      using dep v(2) by (intro to_json_le) (simp_all add: h2)
    ultimately show ?thesis using v(2) l v0(2) by (simp add: stringify_def)
  qed
  have 2: "lookup h2 (data s2) [k] = lookup h (data t) [k]" if "get_prop h0 d0 k = VUndefined" for k
  proof -
    have "map_of kvs k = None"
      using map_of_to_json_fields[OF d0 f0, of k] that
      by (auto simp: get_prop_def split: option.splits)
    then have "map_of ob k = None" by (metis kob map_of_eq_None_iff set_map)
    then show ?thesis
      using look[of k] mm[of k] cur assms(5) by (simp add: get_prop_def)
  qed
  have 3: "set (own_keys h (data t)) \<subseteq> set (own_keys h2 (data s2))"
    using keys_merge[OF dob, of ?cur] cur assms(5)
    by (simp add: s2 h2 obj_at_def)
  from 1 2 3 show ?thesis by blast
qed

text \<open>
  Claim C5 on the snapshot of the initial data, hydrated over a state whose account
  section is filled in: the account section is the one of the snapshot again.
\<close>

theorem hydrate_round_trip_witness:
  "keys_distinct initialHeap \<and> data dirtyState = VRef 5
   \<and> stringify_state initialHeap dirtyState = Some initialDoc
   \<and> heap_ok (account_store (ascii ''a@b.com'') (ascii ''12345678''))
   \<and> data initialState = VRef 5
   \<and> 5 < length (account_store (ascii ''a@b.com'') (ascii ''12345678''))
   \<and> get_prop initialHeap 5 (ascii ''account'') \<noteq> VUndefined
   \<and> stringify
        (fst (reducer []
          (fst (parse_stored (account_store (ascii ''a@b.com'') (ascii ''12345678'')) initialDoc))
          initialState
          (HYDRATE (snd (parse_stored (account_store (ascii ''a@b.com'') (ascii ''12345678'')) initialDoc)))))
        (lookup
          (fst (reducer []
            (fst (parse_stored (account_store (ascii ''a@b.com'') (ascii ''12345678'')) initialDoc))
            initialState
            (HYDRATE (snd (parse_stored (account_store (ascii ''a@b.com'') (ascii ''12345678'')) initialDoc)))))
          (data (snd (reducer []
            (fst (parse_stored (account_store (ascii ''a@b.com'') (ascii ''12345678'')) initialDoc))
            initialState
            (HYDRATE (snd (parse_stored (account_store (ascii ''a@b.com'') (ascii ''12345678'')) initialDoc))))))
          [ascii ''account''])
       = Doc (JObj [(ascii ''email'', JStr []), (ascii ''password'', JStr [])])"
proof -
  let ?H = "account_store (ascii ''a@b.com'') (ascii ''12345678'')"
  let ?P = "parse_stored ?H initialDoc"
  let ?R = "reducer [] (fst ?P) initialState (HYDRATE (snd ?P))"
  have a: "keys_distinct initialHeap" by (rule keys_distinct_initialHeap)
  have b: "data dirtyState = VRef 5" by (simp add: dirtyState_def initialState_def)
  have c: "heap_ok ?H" by (rule heap_ok_account_store)
  have d: "data initialState = VRef 5" by (simp add: initialState_def)
  have e: "5 < length ?H" by (simp add: account_store_def initialHeap_def)
  have p: "?P = (fst ?P, snd ?P)" by simp
  have r: "?R = (fst ?R, snd ?R)" by simp
  have g: "get_prop initialHeap 5 (ascii ''account'') = VRef 0"
    by (simp add: initialHeap_def get_prop_def obj_at_def ascii_def)
  note t = hydrate_round_trip[OF a b stringify_dirtyState c d e p r]
  from t g have "stringify (fst ?R) (lookup (fst ?R) (data (snd ?R)) [ascii ''account''])
      = stringify initialHeap (get_prop initialHeap 5 (ascii ''account''))"
    by simp
  also have "\<dots> = Doc (JObj [(ascii ''email'', JStr []), (ascii ''password'', JStr [])])"
    unfolding g by (simp add: stringify_def initialHeap_def obj_at_def)
  finally show ?thesis using a b c d e g stringify_dirtyState by simp
qed

end
